theory Spec2Isabelle
  imports Main "HOL-Library.Word"
begin

section \<open>Events and subscription requests\<close>

text \<open>
  The stream package publishes events tagged with a topic and a key. An \<open>Event\<close> is the
  Go struct of that name; its \<open>Payload\<close> is an \<open>interface{}\<close> the stream never looks
  into, kept here as an opaque handle. A \<open>SubscribeRequest\<close> holds the Go map
  \<open>topics map[Topic][]string\<close>: a partial map from a topic to the list of keys asked for,
  in the order and with the repetitions the caller wrote. A nil slice and an empty slice
  are both \<open>[]\<close>; the request pointer handed to \<open>filter\<close> is taken to be non-nil.
\<close>

definition AllKeys :: string where
  "AllKeys = ''*''"

record Event =
  Topic :: string
  Key :: string
  Index :: "64 word"
  Payload :: nat

record SubscribeRequest =
  topics :: "string \<rightharpoonup> string list"

subsection \<open>filter\<close>

text \<open>
  \<open>filter\<close> of subscription.go runs the same pair of nested loops twice: the first pass
  counts, the second appends to \<open>result\<close>. The inner loop runs over every key listed for
  the event's topic and acts once for each key \<open>k\<close> with \<open>e.Key == k || k == AllKeys\<close>;
  it has no \<open>break\<close>. \<open>count_keys\<close> and \<open>append_keys\<close> are the inner loops,
  \<open>count_events\<close> and \<open>copy_events\<close> the outer ones, each threading the variable the
  loop updates. The counter is a Go \<open>int\<close>; it is a \<open>nat\<close> here, which is the same
  value as long as fewer than \<open>2 ^ 63\<close> key hits are counted.
\<close>

fun count_keys :: "Event \<Rightarrow> string list \<Rightarrow> nat \<Rightarrow> nat" where
  "count_keys e [] count = count"
| "count_keys e (k # ks) count =
     count_keys e ks (if Key e = k \<or> k = AllKeys then count + 1 else count)"

fun count_events :: "SubscribeRequest \<Rightarrow> Event list \<Rightarrow> nat \<Rightarrow> nat" where
  "count_events req [] count = count"
| "count_events req (e # es) count =
     count_events req es
       (case topics req (Topic e) of None \<Rightarrow> count | Some ks \<Rightarrow> count_keys e ks count)"

fun append_keys :: "Event \<Rightarrow> string list \<Rightarrow> Event list \<Rightarrow> Event list" where
  "append_keys e [] result = result"
| "append_keys e (k # ks) result =
     append_keys e ks (if Key e = k \<or> k = AllKeys then result @ [e] else result)"

fun copy_events :: "SubscribeRequest \<Rightarrow> Event list \<Rightarrow> Event list \<Rightarrow> Event list" where
  "copy_events req [] result = result"
| "copy_events req (e # es) result =
     copy_events req es
       (case topics req (Topic e) of None \<Rightarrow> result | Some ks \<Rightarrow> append_keys e ks result)"

definition filter_events :: "SubscribeRequest \<Rightarrow> Event list \<Rightarrow> Event list" where
  "filter_events req events =
     (if length events = 0 then events
      else let count = count_events req events 0 in
        if count = 0 then []
        else if count = length events then events
        else copy_events req events [])"

text \<open>
  The specification's notion of a match, in its own words: an event matches iff its
  topic is present and either its key equals a listed key or a listed key is \<open>"*"\<close>.
  It is what \<open>filter\<close> is compared with.
\<close>

definition spec_matches :: "SubscribeRequest \<Rightarrow> Event \<Rightarrow> bool" where
  "spec_matches req e =
     (case topics req (Topic e) of None \<Rightarrow> False
      | Some ks \<Rightarrow> list_ex (\<lambda>k. Key e = k \<or> k = AllKeys) ks)"

section \<open>The event buffer\<close>

subsection \<open>Memory\<close>

text \<open>
  Buffer items and their links are heap objects reached through pointers, and
  \<open>NextLink\<close> makes two items share one link, so both live in an explicit store: an
  address is an index into the list of allocated objects, allocation appends, and an
  address outside the list stands for a nil (or otherwise invalid) pointer, whose
  dereference panics. Nothing is ever freed. A channel that is only ever closed is the
  boolean "has been closed"; \<open>next\<close> is an \<open>atomic.Value\<close> holding nil or an item. An
  \<open>error\<close> is one of the values this package can return; \<open>ErrorString\<close> is what
  \<open>fmt.Errorf\<close> and \<open>errors.New\<close> build from a message.
\<close>

type_synonym addr = nat

datatype error = Canceled | DeadlineExceeded | ErrorString string | ErrSubscriptionClosed

datatype panic = NilDereference | NilInterface | StoreOfNil | CloseOfClosedChannel

record bufferLink =
  next_item :: "addr option"
  ch :: bool
  droppedCh :: bool

record bufferItem =
  Events :: "Event list"
  item_Index :: "64 word"
  Err :: "error option"
  link :: addr
  createdAt :: int

record heap =
  items :: "bufferItem list"
  links :: "bufferLink list"

definition item_at :: "'a heap_scheme \<Rightarrow> addr \<Rightarrow> bufferItem option" where
  "item_at h a = (if a < length (items h) then Some (items h ! a) else None)"

definition link_at :: "'a heap_scheme \<Rightarrow> addr \<Rightarrow> bufferLink option" where
  "link_at h l = (if l < length (links h) then Some (links h ! l) else None)"

text \<open>\<open>i.link\<close> followed by a field of the link: both pointers must be valid.\<close>

definition item_link :: "'a heap_scheme \<Rightarrow> addr \<Rightarrow> panic + addr" where
  "item_link h i =
     (case item_at h i of None \<Rightarrow> Inl NilDereference
      | Some it \<Rightarrow> (case link_at h (link it) of None \<Rightarrow> Inl NilDereference
                    | Some l \<Rightarrow> Inr (link it)))"

definition newBufferItem ::
  "int \<Rightarrow> 64 word \<Rightarrow> Event list \<Rightarrow> 'a heap_scheme \<Rightarrow> addr \<times> 'a heap_scheme" where
  "newBufferItem now index events h =
     (length (items h),
      h\<lparr>items := items h @
            [\<lparr>Events = events, item_Index = index, Err = None,
              link = length (links h), createdAt = now\<rparr>],
        links := links h @ [\<lparr>next_item = None, ch = False, droppedCh = False\<rparr>]\<rparr>)"

subsection \<open>The buffer and its writes\<close>

text \<open>
  The buffer is kept together with the memory its pointers refer to. \<open>size\<close> is the
  \<open>int64\<close> behind the \<open>size\<close> pointer; \<open>head\<close> and \<open>tail\<close> are \<open>atomic.Value\<close>s, nil
  until something is stored. \<open>trace\<close> is a log: each write to shared state (an atomic
  store, an atomic add, a channel close) adds its own entry when it happens, so the
  order in which an operation performs its writes can be read off afterwards.
\<close>

datatype effect =
    StoreNext addr addr
  | StoreTail addr
  | StoreHead addr
  | AddSize "64 word"
  | CloseCh addr
  | CloseDroppedCh addr

record eventBuffer = heap +
  size_b :: "64 word"
  head :: "addr option"
  tail :: "addr option"
  maxSize :: "64 word"
  maxItemTTL :: "64 word"
  trace :: "effect list"

definition bind_p :: "panic + 'a \<Rightarrow> ('a \<Rightarrow> panic + 'b) \<Rightarrow> panic + 'b" where
  "bind_p m f = (case m of Inl p \<Rightarrow> Inl p | Inr x \<Rightarrow> f x)"

definition store_next :: "addr \<Rightarrow> addr \<Rightarrow> eventBuffer \<Rightarrow> panic + eventBuffer" where
  "store_next l item b =
     (case link_at b l of None \<Rightarrow> Inl NilDereference
      | Some lk \<Rightarrow> Inr (b\<lparr>links := (links b)[l := lk\<lparr>next_item := Some item\<rparr>],
                        trace := trace b @ [StoreNext l item]\<rparr>))"

definition load_next :: "eventBuffer \<Rightarrow> addr \<Rightarrow> panic + addr option" where
  "load_next b l =
     (case link_at b l of None \<Rightarrow> Inl NilDereference | Some lk \<Rightarrow> Inr (next_item lk))"

definition store_tail :: "addr \<Rightarrow> eventBuffer \<Rightarrow> eventBuffer" where
  "store_tail item b = b\<lparr>tail := Some item, trace := trace b @ [StoreTail item]\<rparr>"

text \<open>\<open>atomic.Value.Store\<close> panics when handed a nil interface.\<close>

definition store_head :: "addr option \<Rightarrow> eventBuffer \<Rightarrow> panic + eventBuffer" where
  "store_head v b =
     (case v of None \<Rightarrow> Inl StoreOfNil
      | Some item \<Rightarrow> Inr (b\<lparr>head := Some item, trace := trace b @ [StoreHead item]\<rparr>))"

definition add_size :: "64 word \<Rightarrow> eventBuffer \<Rightarrow> eventBuffer" where
  "add_size d b = b\<lparr>size_b := size_b b + d, trace := trace b @ [AddSize d]\<rparr>"

text \<open>Closing a channel that is already closed panics.\<close>

definition close_ch :: "addr \<Rightarrow> eventBuffer \<Rightarrow> panic + eventBuffer" where
  "close_ch l b =
     (case link_at b l of None \<Rightarrow> Inl NilDereference
      | Some lk \<Rightarrow>
          if ch lk then Inl CloseOfClosedChannel
          else Inr (b\<lparr>links := (links b)[l := lk\<lparr>ch := True\<rparr>],
                     trace := trace b @ [CloseCh l]\<rparr>))"

definition close_droppedCh :: "addr \<Rightarrow> eventBuffer \<Rightarrow> panic + eventBuffer" where
  "close_droppedCh l b =
     (case link_at b l of None \<Rightarrow> Inl NilDereference
      | Some lk \<Rightarrow>
          if droppedCh lk then Inl CloseOfClosedChannel
          else Inr (b\<lparr>links := (links b)[l := lk\<lparr>droppedCh := True\<rparr>],
                     trace := trace b @ [CloseDroppedCh l]\<rparr>))"

text \<open>
  \<open>newEventBuffer\<close>: the struct literal sets \<open>maxSize\<close> and \<open>size\<close> only, so
  \<open>maxItemTTL\<close> keeps its zero value whatever the second argument is. The sentinel
  is then stored into \<open>head\<close> and into \<open>tail\<close>.
\<close>

definition newEventBuffer :: "int \<Rightarrow> 64 word \<Rightarrow> 64 word \<Rightarrow> heap \<Rightarrow> eventBuffer" where
  "newEventBuffer now sz ttl h =
     (let (item, h') = newBufferItem now 0 [] h in
      \<lparr>items = items h', links = links h', size_b = 0, head = Some item,
       tail = Some item, maxSize = sz, maxItemTTL = 0,
       trace = [StoreHead item, StoreTail item]\<rparr>)"

text \<open>\<open>Head\<close> and \<open>Tail\<close> assert the loaded interface to be a \<open>*bufferItem\<close>.\<close>

definition Head :: "eventBuffer \<Rightarrow> panic + addr" where
  "Head b = (case head b of None \<Rightarrow> Inl NilInterface | Some a \<Rightarrow> Inr a)"

definition Tail :: "eventBuffer \<Rightarrow> panic + addr" where
  "Tail b = (case tail b of None \<Rightarrow> Inl NilInterface | Some a \<Rightarrow> Inr a)"

definition Len :: "eventBuffer \<Rightarrow> int" where
  "Len b = sint (size_b b)"

definition advanceHead :: "eventBuffer \<Rightarrow> panic + eventBuffer" where
  "advanceHead b =
     bind_p (Head b) (\<lambda>old.
     bind_p (item_link b old) (\<lambda>l.
     bind_p (load_next b l) (\<lambda>next.
     bind_p (close_droppedCh l b) (\<lambda>b1.
     bind_p (store_head next b1) (\<lambda>b2.
     Inr (add_size (- 1) b2))))))"

definition appendItem :: "addr \<Rightarrow> eventBuffer \<Rightarrow> panic + eventBuffer" where
  "appendItem item b =
     bind_p (Tail b) (\<lambda>oldTail.
     bind_p (item_link b oldTail) (\<lambda>l.
     bind_p (store_next l item b) (\<lambda>b1.
     let b2 = store_tail item b1;
         b3 = add_size 1 b2
     in bind_p (if maxSize b3 <s size_b b3 then advanceHead b3 else Inr b3) (\<lambda>b4.
        close_ch l b4))))"

definition Append :: "int \<Rightarrow> 64 word \<Rightarrow> Event list \<Rightarrow> eventBuffer \<Rightarrow> panic + eventBuffer" where
  "Append now index events b =
     (let (item, b') = newBufferItem now index events b in appendItem item b')"

text \<open>
  \<open>time.Since\<close> is \<open>time.Now().Sub(t)\<close>, a \<open>Duration\<close> (an \<open>int64\<close> of nanoseconds)
  that saturates at both ends. Instants are integers of nanoseconds.
\<close>

definition time_Since :: "int \<Rightarrow> int \<Rightarrow> 64 word" where
  "time_Since now t = word_of_int (max (- (2 ^ 63)) (min (2 ^ 63 - 1) (now - t)))"

text \<open>
  \<open>prune\<close> reads the clock afresh on every turn of its loop: \<open>clock k\<close> is the reading
  of turn \<open>k\<close>. Every turn that goes round again has decremented a non-zero \<open>size\<close>, so
  the loop ends.
\<close>

function prune :: "(nat \<Rightarrow> int) \<Rightarrow> nat \<Rightarrow> eventBuffer \<Rightarrow> panic + eventBuffer" where
  "prune clock k b =
     (case Head b of Inl p \<Rightarrow> Inl p
      | Inr hd_item \<Rightarrow>
          if Len b = 0 then Inr b
          else (case item_at b hd_item of None \<Rightarrow> Inl NilDereference
                | Some it \<Rightarrow>
                    if maxItemTTL b <s time_Since (clock k) (createdAt it)
                    then (case advanceHead b of Inl p \<Rightarrow> Inl p
                          | Inr b' \<Rightarrow> prune clock (Suc k) b')
                    else Inr b))"
  by pat_completeness auto
termination
proof (relation "measure (\<lambda>(clock, k, b). unat (size_b b))")
  show "wf (measure (\<lambda>(clock, k, b). unat (size_b b)))" by simp
next
  fix clock :: "nat \<Rightarrow> int" and k :: nat and b b' :: eventBuffer
    and hd_item :: addr and it :: bufferItem
  assume "Len b \<noteq> 0" and "advanceHead b = Inr b'"
  then have "size_b b \<noteq> 0" and "size_b b' = size_b b - 1"
    by (auto simp: Len_def advanceHead_def bind_p_def Head_def item_link_def load_next_def
        close_droppedCh_def store_head_def add_size_def
        split: option.splits sum.splits if_splits)
  then have "unat (size_b b') < unat (size_b b)"
    by (simp add: unat_minus_one unat_gt_0 word_neq_0_conv)
  then show "((clock, Suc k, b'), (clock, k, b)) \<in> measure (\<lambda>(clock, k, b). unat (size_b b))"
    by simp
qed


subsection \<open>Following the list\<close>

text \<open>
  \<open>NextNoBlock\<close> loads \<open>i.link.next\<close>. \<open>chain n h a\<close> follows it from item \<open>a\<close> until a
  link whose \<open>next\<close> is nil, for at most \<open>n\<close> items, and lists the items it met;
  \<open>items_from_head\<close> starts at the head with one step for every allocated item, which
  is enough for any list that does not run in a circle.
\<close>

definition NextNoBlock :: "'a heap_scheme \<Rightarrow> addr \<Rightarrow> panic + addr option" where
  "NextNoBlock h i =
     (case item_link h i of Inl p \<Rightarrow> Inl p
      | Inr l \<Rightarrow> (case link_at h l of None \<Rightarrow> Inl NilDereference
                  | Some lk \<Rightarrow> Inr (next_item lk)))"

fun chain :: "nat \<Rightarrow> 'a heap_scheme \<Rightarrow> addr \<Rightarrow> addr list option" where
  "chain 0 h a = None"
| "chain (Suc n) h a =
     (case NextNoBlock h a of Inl p \<Rightarrow> None
      | Inr None \<Rightarrow> Some [a]
      | Inr (Some nx) \<Rightarrow> (case chain n h nx of None \<Rightarrow> None | Some xs \<Rightarrow> Some (a # xs)))"

definition items_from_head :: "eventBuffer \<Rightarrow> addr list option" where
  "items_from_head b =
     (case head b of None \<Rightarrow> None | Some a \<Rightarrow> chain (length (items b)) b a)"

text \<open>
  The buffer states that the writer's operations produce, starting from
  \<open>newEventBuffer\<close>; an operation that panics produces none.
\<close>

inductive reachable :: "eventBuffer \<Rightarrow> bool" where
  reach_new: "reachable (newEventBuffer now sz ttl h)"
| reach_Append: "reachable b \<Longrightarrow> Append now index events b = Inr b' \<Longrightarrow> reachable b'"
| reach_advanceHead: "reachable b \<Longrightarrow> advanceHead b = Inr b' \<Longrightarrow> reachable b'"
| reach_prune: "reachable b \<Longrightarrow> prune clock k b = Inr b' \<Longrightarrow> reachable b'"

section \<open>Cursor advance\<close>

text \<open>
  \<open>bufferItem.Next\<close> is evaluated against one snapshot of the shared state: the
  context is \<open>None\<close> while its \<open>Done\<close> channel is open and \<open>Some err\<close> once it is
  closed (\<open>err\<close> being what \<open>ctx.Err()\<close> then returns), \<open>forceClose\<close> and the link's
  channels are closed or not. A \<open>select\<close> with several ready cases takes one of them at
  random: \<open>pick\<close> is the draw, and with no ready case the call does not return in this
  snapshot (\<open>Blocks\<close>). The second \<open>select\<close> has a \<open>default\<close> and never waits.
\<close>

datatype 'a outcome = Blocks | Panics panic | Fails error | Returns 'a

datatype select_case = CtxDone error | ForceClosed | LinkReady

definition ready_cases :: "error option \<Rightarrow> bool \<Rightarrow> bool \<Rightarrow> select_case list" where
  "ready_cases ctx forceClose ready =
     (case ctx of None \<Rightarrow> [] | Some e \<Rightarrow> [CtxDone e]) @
     (if forceClose then [ForceClosed] else []) @
     (if ready then [LinkReady] else [])"

definition select_go :: "nat \<Rightarrow> select_case list \<Rightarrow> select_case option" where
  "select_go pick cs = (if cs = [] then None else Some (cs ! (pick mod length cs)))"

definition bufferItem_Next ::
  "'a heap_scheme \<Rightarrow> error option \<Rightarrow> bool \<Rightarrow> nat \<Rightarrow> addr \<Rightarrow> addr outcome" where
  "bufferItem_Next h ctx forceClose pick i =
     (case item_link h i of Inl p \<Rightarrow> Panics p
      | Inr l \<Rightarrow>
         (case link_at h l of None \<Rightarrow> Panics NilDereference
          | Some lk \<Rightarrow>
             (case select_go pick (ready_cases ctx forceClose (ch lk)) of
                None \<Rightarrow> Blocks
              | Some (CtxDone e) \<Rightarrow> Fails e
              | Some ForceClosed \<Rightarrow> Fails (ErrorString ''subscription closed'')
              | Some LinkReady \<Rightarrow>
                  if droppedCh lk then Fails (ErrorString ''event dropped from buffer'')
                  else (case next_item lk of
                          None \<Rightarrow> Fails (ErrorString ''invalid next item'')
                        | Some n \<Rightarrow>
                            (case item_at h n of None \<Rightarrow> Panics NilDereference
                             | Some nx \<Rightarrow>
                                 (case Err nx of Some e \<Rightarrow> Fails e
                                  | None \<Rightarrow> Returns n))))))"

text \<open>\<open>NextLink\<close> allocates an item without content that shares the link of \<open>i\<close>.\<close>

definition NextLink :: "'a heap_scheme \<Rightarrow> addr \<Rightarrow> panic + addr \<times> 'a heap_scheme" where
  "NextLink h i =
     (case NextNoBlock h i of Inl p \<Rightarrow> Inl p
      | Inr (Some nx) \<Rightarrow> Inr (nx, h)
      | Inr None \<Rightarrow>
          (case item_at h i of None \<Rightarrow> Inl NilDereference
           | Some it \<Rightarrow>
               Inr (length (items h),
                    h\<lparr>items := items h @
                         [\<lparr>Events = [], item_Index = 0, Err = None,
                           link = link it, createdAt = 0\<rparr>]\<rparr>)))"

section \<open>The publisher\<close>

text \<open>
  \<open>publishCh\<close> is an unbuffered channel: the list holds the messages senders are
  offering, oldest first, and one turn of \<open>handleUpdates\<close> receives the first of them
  and appends it to the buffer under the lock. With nothing offered the turn waits
  (\<open>None\<close>). The logger, the lock and the unused \<open>size\<close> field are left out.
\<close>

record EventPublisherCfg =
  EventBufferSize :: "64 word"
  EventBufferTTL :: "64 word"

record changeEvents =
  index :: "64 word"
  events :: "Event list"

record EventPublisher =
  events_buf :: eventBuffer
  pruneTick :: "64 word"
  publishCh :: "changeEvents list"

definition NewEventPublisher :: "int \<Rightarrow> EventPublisherCfg \<Rightarrow> heap \<Rightarrow> EventPublisher" where
  "NewEventPublisher now cfg h =
     (let ttl = (if EventBufferTTL cfg = 0 then 3600000000000 else EventBufferTTL cfg);
          buffer = newEventBuffer now (EventBufferSize cfg) ttl h
      in \<lparr>events_buf = buffer, pruneTick = 0, publishCh = []\<rparr>)"

definition Publish :: "64 word \<Rightarrow> Event list \<Rightarrow> EventPublisher \<Rightarrow> EventPublisher" where
  "Publish i evs e =
     (if length evs > 0 then e\<lparr>publishCh := publishCh e @ [\<lparr>index = i, events = evs\<rparr>]\<rparr>
      else e)"

definition sendEvents :: "int \<Rightarrow> changeEvents \<Rightarrow> EventPublisher \<Rightarrow> panic + EventPublisher" where
  "sendEvents now update e =
     (case Append now (index update) (events update) (events_buf e) of
        Inl p \<Rightarrow> Inl p
      | Inr b \<Rightarrow> Inr (e\<lparr>events_buf := b\<rparr>))"

definition handleUpdates_turn :: "int \<Rightarrow> EventPublisher \<Rightarrow> (panic + EventPublisher) option" where
  "handleUpdates_turn now e =
     (case publishCh e of [] \<Rightarrow> None
      | update # rest \<Rightarrow> Some (sendEvents now update (e\<lparr>publishCh := rest\<rparr>)))"

definition periodicPrune_turn :: "(nat \<Rightarrow> int) \<Rightarrow> EventPublisher \<Rightarrow> panic + EventPublisher" where
  "periodicPrune_turn clock e =
     (case prune clock 0 (events_buf e) of
        Inl p \<Rightarrow> Inl p
      | Inr b \<Rightarrow> Inr (e\<lparr>events_buf := b\<rparr>))"

section \<open>Subscriptions\<close>

text \<open>
  \<open>Subscription.Next\<close> checks the state once, then loops: a cursor step, the state
  check on failure, the cursor update, the filter. Every turn draws afresh for its
  \<open>select\<close>: \<open>picks\<close> lists the draws, the first for the first turn (and 0 once the
  list is used up). The loop can go round for ever on a list that runs in a circle;
  then the call has no result (\<open>None\<close>).
\<close>

definition subscriptionStateOpen :: "32 word" where
  "subscriptionStateOpen = 0"

definition subscriptionStateClosed :: "32 word" where
  "subscriptionStateClosed = 1"

record Subscription =
  state :: "32 word"
  req :: SubscribeRequest
  currentItem :: addr
  forceClosed :: bool

definition draw :: "nat list \<Rightarrow> nat" where
  "draw picks = (case picks of [] \<Rightarrow> 0 | p # ps \<Rightarrow> p)"

partial_function (option) Subscription_loop ::
  "heap \<Rightarrow> error option \<Rightarrow> nat list \<Rightarrow> Subscription \<Rightarrow> (Event list outcome \<times> Subscription) option"
where
  "Subscription_loop h ctx picks s =
     (case bufferItem_Next h ctx (forceClosed s) (draw picks) (currentItem s) of
        Blocks \<Rightarrow> Some (Blocks, s)
      | Panics p \<Rightarrow> Some (Panics p, s)
      | Fails err \<Rightarrow>
          if state s = subscriptionStateClosed then Some (Fails ErrSubscriptionClosed, s)
          else Some (Fails err, s)
      | Returns nx \<Rightarrow>
          (case item_at h nx of None \<Rightarrow> Some (Panics NilDereference, s\<lparr>currentItem := nx\<rparr>)
           | Some it \<Rightarrow>
               if length (filter_events (req s) (Events it)) = 0
               then Subscription_loop h ctx (tl picks) (s\<lparr>currentItem := nx\<rparr>)
               else Some (Returns (filter_events (req s) (Events it)), s\<lparr>currentItem := nx\<rparr>)))"

definition Subscription_Next ::
  "heap \<Rightarrow> error option \<Rightarrow> nat list \<Rightarrow> Subscription \<Rightarrow> (Event list outcome \<times> Subscription) option"
where
  "Subscription_Next h ctx picks s =
     (if state s = subscriptionStateClosed then Some (Fails ErrSubscriptionClosed, s)
      else Subscription_loop h ctx picks s)"

section \<open>Notions used to state the properties\<close>

text \<open>
  \<open>lnk h a\<close> is the link field of item \<open>a\<close>. \<open>path h xs\<close> says that \<open>xs\<close> is the list
  of items met by following \<open>next\<close> from its first element up to the item whose
  \<open>next\<close> is nil. \<open>wf_chain b xs\<close> collects what the writer keeps true of the buffer:
  \<open>xs\<close> is that list from the head, the tail is its last item, every item on it has a
  link of its own, none of them has been dropped, the tail's \<open>ch\<close> is still open, and
  \<open>size\<close> is the number of items after the head (in \<open>int64\<close> arithmetic).
\<close>

definition lnk :: "'a heap_scheme \<Rightarrow> addr \<Rightarrow> addr" where
  "lnk h a = link (items h ! a)"

fun path :: "'a heap_scheme \<Rightarrow> addr list \<Rightarrow> bool" where
  "path h [] = False"
| "path h [a] = (NextNoBlock h a = Inr None)"
| "path h (a # c # xs) = (NextNoBlock h a = Inr (Some c) \<and> path h (c # xs))"

definition wf_chain :: "eventBuffer \<Rightarrow> addr list \<Rightarrow> bool" where
  "wf_chain b xs =
     (path b xs \<and> head b = Some (hd xs) \<and> tail b = Some (last xs) \<and>
      distinct (map (lnk b) xs) \<and>
      list_all (\<lambda>a. \<not> droppedCh (links b ! lnk b a)) xs \<and>
      \<not> ch (links b ! lnk b (last xs)) \<and>
      size_b b = of_nat (length xs) - 1)"

text \<open>
  \<open>hits rq e\<close> is the number of keys listed for the topic of \<open>e\<close> that accept
  \<open>e\<close>: the number of times the inner loop of \<open>filter\<close> acts on it.
\<close>

definition hits :: "SubscribeRequest \<Rightarrow> Event \<Rightarrow> nat" where
  "hits rq e =
     (case topics rq (Topic e) of None \<Rightarrow> 0
      | Some ks \<Rightarrow> length (filter (\<lambda>k. Key e = k \<or> k = AllKeys) ks))"

text \<open>The number of stores to \<open>head\<close> recorded in a log.\<close>

fun head_stores :: "effect list \<Rightarrow> nat" where
  "head_stores [] = 0"
| "head_stores (StoreHead a # es) = Suc (head_stores es)"
| "head_stores (e # es) = head_stores es"

text \<open>
  \<open>skipped h r a c\<close>: the cursor can get from item \<open>a\<close> to item \<open>c\<close> by steps to the
  next item, each onto an item none of whose events passes the filter of request \<open>r\<close>.
\<close>

inductive skipped :: "heap \<Rightarrow> SubscribeRequest \<Rightarrow> addr \<Rightarrow> addr \<Rightarrow> bool" where
  skipped_refl: "skipped h r a a"
| skipped_step:
    "NextNoBlock h a = Inr (Some n) \<Longrightarrow> item_at h n = Some it \<Longrightarrow>
     filter_events r (Events it) = [] \<Longrightarrow> skipped h r n c \<Longrightarrow> skipped h r a c"

subsection \<open>Example states\<close>

text \<open>
  \<open>buf_new\<close> is a buffer of capacity 1 asked to keep items for an hour, created at
  instant 0; \<open>buf_one\<close> is what an append at instant 5 makes of it; \<open>buf_two\<close> is
  what a second append, at instant 7, makes of \<open>buf_one\<close>; \<open>buf_pruned\<close> is what a
  prune at instant 6 makes of \<open>buf_one\<close>.
\<close>

definition ev_jobs_A :: Event where
  "ev_jobs_A = \<lparr>Topic = ''jobs'', Key = ''A'', Index = 1, Payload = 0\<rparr>"

definition ev_nodes_N :: Event where
  "ev_nodes_N = \<lparr>Topic = ''nodes'', Key = ''N'', Index = 2, Payload = 0\<rparr>"

definition req_star_A :: SubscribeRequest where
  "req_star_A = \<lparr>topics = [''jobs'' \<mapsto> [''*'', ''A'']]\<rparr>"

definition req_nodes :: SubscribeRequest where
  "req_nodes = \<lparr>topics = [''nodes'' \<mapsto> [''*'']]\<rparr>"

definition empty_heap :: heap where
  "empty_heap = \<lparr>items = [], links = []\<rparr>"

definition buf_new :: eventBuffer where
  "buf_new = newEventBuffer 0 1 3600000000000 empty_heap"

definition buf_one :: eventBuffer where
  "buf_one =
     \<lparr>items = [\<lparr>Events = [], item_Index = 0, Err = None, link = 0, createdAt = 0\<rparr>,
               \<lparr>Events = [ev_jobs_A], item_Index = 1, Err = None, link = 1, createdAt = 5\<rparr>],
      links = [\<lparr>next_item = Some 1, ch = True, droppedCh = False\<rparr>,
               \<lparr>next_item = None, ch = False, droppedCh = False\<rparr>],
      size_b = 1, head = Some 0, tail = Some 1, maxSize = 1, maxItemTTL = 0,
      trace = [StoreHead 0, StoreTail 0, StoreNext 0 1, StoreTail 1, AddSize 1, CloseCh 0]\<rparr>"

definition buf_two :: eventBuffer where
  "buf_two =
     \<lparr>items = [\<lparr>Events = [], item_Index = 0, Err = None, link = 0, createdAt = 0\<rparr>,
               \<lparr>Events = [ev_jobs_A], item_Index = 1, Err = None, link = 1, createdAt = 5\<rparr>,
               \<lparr>Events = [ev_nodes_N], item_Index = 2, Err = None, link = 2, createdAt = 7\<rparr>],
      links = [\<lparr>next_item = Some 1, ch = True, droppedCh = True\<rparr>,
               \<lparr>next_item = Some 2, ch = True, droppedCh = False\<rparr>,
               \<lparr>next_item = None, ch = False, droppedCh = False\<rparr>],
      size_b = 1, head = Some 1, tail = Some 2, maxSize = 1, maxItemTTL = 0,
      trace = [StoreHead 0, StoreTail 0, StoreNext 0 1, StoreTail 1, AddSize 1, CloseCh 0,
               StoreNext 1 2, StoreTail 2, AddSize 1,
               CloseDroppedCh 0, StoreHead 1, AddSize (- 1), CloseCh 1]\<rparr>"

definition buf_pruned :: eventBuffer where
  "buf_pruned =
     \<lparr>items = [\<lparr>Events = [], item_Index = 0, Err = None, link = 0, createdAt = 0\<rparr>,
               \<lparr>Events = [ev_jobs_A], item_Index = 1, Err = None, link = 1, createdAt = 5\<rparr>],
      links = [\<lparr>next_item = Some 1, ch = True, droppedCh = True\<rparr>,
               \<lparr>next_item = None, ch = False, droppedCh = False\<rparr>],
      size_b = 0, head = Some 1, tail = Some 1, maxSize = 1, maxItemTTL = 0,
      trace = [StoreHead 0, StoreTail 0, StoreNext 0 1, StoreTail 1, AddSize 1, CloseCh 0,
               CloseDroppedCh 0, StoreHead 1, AddSize (- 1)]\<rparr>"

definition clock_6ns :: "nat \<Rightarrow> int" where
  "clock_6ns k = 6"

text \<open>
  The memory of \<open>buf_one\<close> on its own, a memory whose second item carries an error,
  and a subscription to the nodes topic standing on the sentinel.
\<close>

definition heap_one :: heap where
  "heap_one = \<lparr>items = items buf_one, links = links buf_one\<rparr>"

definition heap_err :: heap where
  "heap_err =
     \<lparr>items = [\<lparr>Events = [], item_Index = 0, Err = None, link = 0, createdAt = 0\<rparr>,
               \<lparr>Events = [], item_Index = 1, Err = Some (ErrorString ''producer failed''),
                link = 1, createdAt = 5\<rparr>],
      links = [\<lparr>next_item = Some 1, ch = True, droppedCh = False\<rparr>,
               \<lparr>next_item = None, ch = False, droppedCh = False\<rparr>]\<rparr>"

definition sub_nodes :: Subscription where
  "sub_nodes =
     \<lparr>state = subscriptionStateOpen, req = req_nodes, currentItem = 0, forceClosed = False\<rparr>"

declare prune.simps [simp del]

section \<open>Properties of filter\<close>

text \<open>
  What the two passes compute: the count is the sum of the hits, and the copy holds each
  event as many times as it was hit, in input order.
\<close>

lemma count_keys_eq:
  "count_keys e ks c = c + length (filter (\<lambda>k. Key e = k \<or> k = AllKeys) ks)"
  by (induction ks arbitrary: c) auto

lemma append_keys_eq:
  "append_keys e ks r = r @ replicate (length (filter (\<lambda>k. Key e = k \<or> k = AllKeys) ks)) e"
  by (induction ks arbitrary: r) (auto simp: replicate_append_same)

lemma count_events_eq: "count_events rq es c = c + sum_list (map (hits rq) es)"
  by (induction es arbitrary: c) (auto simp: hits_def count_keys_eq split: option.splits)

lemma copy_events_eq:
  "copy_events rq es r = r @ concat (map (\<lambda>e. replicate (hits rq e) e) es)"
  by (induction es arbitrary: r) (auto simp: hits_def append_keys_eq split: option.splits)

lemma spec_matches_hits: "spec_matches rq e = (0 < hits rq e)"
  by (auto simp: spec_matches_def hits_def list_ex_iff filter_empty_conv split: option.splits)

text \<open>
  On a batch each of whose events is accepted by at most one listed key, \<open>filter\<close>
  returns the matching events, each once, in input order.
\<close>

lemma single_hit_sum:
  "\<forall>e\<in>set es. hits rq e \<le> 1 \<Longrightarrow>
     sum_list (map (hits rq) es) = length (filter (spec_matches rq) es)"
  by (induction es) (auto simp: spec_matches_hits)

lemma single_hit_concat:
  "\<forall>e\<in>set es. hits rq e \<le> 1 \<Longrightarrow>
     concat (map (\<lambda>e. replicate (hits rq e) e) es) = filter (spec_matches rq) es"
proof (induction es)
  case Nil
  then show ?case by simp
next
  case (Cons e es)
  then have "hits rq e = 0 \<or> hits rq e = 1" by auto
  with Cons show ?case by (auto simp: spec_matches_hits)
qed

lemma filter_events_single_hit:
  assumes "\<forall>e\<in>set es. hits rq e \<le> 1"
  shows "filter_events rq es = filter (spec_matches rq) es"
proof -
  let ?n = "length (filter (spec_matches rq) es)"
  have c: "count_events rq es 0 = ?n" by (simp add: count_events_eq single_hit_sum[OF assms])
  have k: "copy_events rq es [] = filter (spec_matches rq) es"
    by (simp add: copy_events_eq single_hit_concat[OF assms])
  have z: "filter (spec_matches rq) es = []" if "?n = 0" using that by simp
  have a: "filter (spec_matches rq) es = es" if "?n = length es"
    using that by (metis filter_True length_filter_less less_irrefl_nat filter_cong)
  show ?thesis
    using z a by (auto simp: filter_events_def Let_def c k)
qed

lemma filter_events_single_hit_idem:
  assumes "\<forall>e\<in>set es. hits rq e \<le> 1"
  shows "filter_events rq (filter_events rq es) = filter_events rq es"
proof -
  have 1: "filter_events rq es = filter (spec_matches rq) es"
    by (rule filter_events_single_hit[OF assms])
  have "\<forall>e\<in>set (filter (spec_matches rq) es). hits rq e \<le> 1" using assms by simp
  from filter_events_single_hit[OF this] show ?thesis by (simp add: 1)
qed

lemma filter_events_single_hit_covered:
  assumes "\<forall>e\<in>set es. hits rq e \<le> 1" and "\<forall>e\<in>set es. spec_matches rq e"
  shows "filter_events rq es = es"
  using filter_events_single_hit[OF assms(1)] assms(2) by simp

lemmas filter_example_defs =
  filter_events_def spec_matches_def AllKeys_def req_star_A_def req_nodes_def ev_jobs_A_def
  ev_nodes_N_def

text \<open>
  Claim C3 (filter returns exactly the matching events, each once, in input order).
  The inner loops act once for every listed key that accepts the event, so the request
  \<open>{jobs: [*, A]}\<close> counts the event \<open>(jobs, A)\<close> twice. On the batch
  \<open>[(jobs, A), (nodes, N)]\<close> the count is then 2, the length of the batch, and
  \<open>filter\<close> takes the "nothing to filter out" exit: it returns the whole batch, with
  the event of the nodes topic that the request does not match.
\<close>

theorem filter_returns_unmatched_event:
  "filter_events req_star_A [ev_jobs_A, ev_nodes_N] = [ev_jobs_A, ev_nodes_N]
   \<and> spec_matches req_star_A ev_jobs_A \<and> \<not> spec_matches req_star_A ev_nodes_N"
  by (simp add: filter_example_defs)

text \<open>
  Claim C4 (filter is idempotent). With the same request the one-event batch
  \<open>[(jobs, A)]\<close> is filtered to two copies of the event, and filtering those again
  gives four.
\<close>

theorem filter_not_idempotent:
  "filter_events req_star_A [ev_jobs_A] = [ev_jobs_A, ev_jobs_A]
   \<and> filter_events req_star_A (filter_events req_star_A [ev_jobs_A]) =
       [ev_jobs_A, ev_jobs_A, ev_jobs_A, ev_jobs_A]
   \<and> filter_events req_star_A (filter_events req_star_A [ev_jobs_A]) \<noteq>
       filter_events req_star_A [ev_jobs_A]"
  by (simp add: filter_example_defs)

text \<open>
  Claim C5 (a batch all of whose events match comes back unchanged). Every event of
  \<open>[(jobs, A)]\<close> matches \<open>{jobs: [*, A]}\<close>, and the result is not the batch.
\<close>

theorem filter_changes_covered_batch:
  "list_all (spec_matches req_star_A) [ev_jobs_A]
   \<and> filter_events req_star_A [ev_jobs_A] \<noteq> [ev_jobs_A]"
  by (simp add: filter_example_defs)

section \<open>Properties of the buffer\<close>

subsection \<open>When the primitive writes succeed\<close>

lemma bind_p_Inr: "(bind_p m f = Inr y) = (\<exists>x. m = Inr x \<and> f x = Inr y)"
  by (cases m) (simp_all add: bind_p_def)

lemma Head_Inr: "(Head b = Inr a) = (head b = Some a)"
  by (simp add: Head_def split: option.splits)

lemma Tail_Inr: "(Tail b = Inr a) = (tail b = Some a)"
  by (simp add: Tail_def split: option.splits)

lemma item_link_Inr:
  "(item_link h i = Inr l) = (i < length (items h) \<and> l = lnk h i \<and> l < length (links h))"
  by (auto simp: item_link_def item_at_def link_at_def lnk_def split: option.splits)

lemma load_next_Inr:
  "(load_next b l = Inr r) = (l < length (links b) \<and> r = next_item (links b ! l))"
  by (auto simp: load_next_def link_at_def split: option.splits)

lemma close_droppedCh_Inr:
  "(close_droppedCh l b = Inr b1) =
     (l < length (links b) \<and> \<not> droppedCh (links b ! l) \<and>
      b1 = b\<lparr>links := (links b)[l := (links b ! l)\<lparr>droppedCh := True\<rparr>],
             trace := trace b @ [CloseDroppedCh l]\<rparr>)"
  by (auto simp: close_droppedCh_def link_at_def split: option.splits)

lemma close_ch_Inr:
  "(close_ch l b = Inr b1) =
     (l < length (links b) \<and> \<not> ch (links b ! l) \<and>
      b1 = b\<lparr>links := (links b)[l := (links b ! l)\<lparr>ch := True\<rparr>],
             trace := trace b @ [CloseCh l]\<rparr>)"
  by (auto simp: close_ch_def link_at_def split: option.splits)

lemma store_next_Inr:
  "(store_next l item b = Inr b1) =
     (l < length (links b) \<and>
      b1 = b\<lparr>links := (links b)[l := (links b ! l)\<lparr>next_item := Some item\<rparr>],
             trace := trace b @ [StoreNext l item]\<rparr>)"
  by (auto simp: store_next_def link_at_def split: option.splits)

lemma store_head_Inr:
  "(store_head v b = Inr b2) =
     (\<exists>n. v = Some n \<and> b2 = b\<lparr>head := Some n, trace := trace b @ [StoreHead n]\<rparr>)"
  by (auto simp: store_head_def split: option.splits)

subsection \<open>Following the list\<close>

lemma path_nonempty: "path h xs \<Longrightarrow> xs \<noteq> []"
  by (cases xs) auto

lemma NextNoBlock_valid:
  "NextNoBlock h a = Inr r \<Longrightarrow>
     a < length (items h) \<and> lnk h a < length (links h) \<and> next_item (links h ! lnk h a) = r"
  by (auto simp: NextNoBlock_def item_link_def item_at_def link_at_def lnk_def
      split: option.splits sum.splits if_splits)

lemma NextNoBlock_eq:
  "a < length (items h) \<Longrightarrow> lnk h a < length (links h) \<Longrightarrow>
     NextNoBlock h a = Inr (next_item (links h ! lnk h a))"
  by (simp add: NextNoBlock_def item_link_def item_at_def link_at_def lnk_def)

lemma path_valid:
  "path h xs \<Longrightarrow> a \<in> set xs \<Longrightarrow> a < length (items h) \<and> lnk h a < length (links h)"
  by (induction h xs rule: path.induct) (auto dest: NextNoBlock_valid)

lemma path_chain:
  "path h xs \<Longrightarrow> length xs \<le> n \<Longrightarrow> chain n h (hd xs) = Some xs"
proof (induction h xs arbitrary: n rule: path.induct)
  case (1 h)
  then show ?case by simp
next
  case (2 h a)
  then obtain m where "n = Suc m" by (cases n) auto
  with 2 show ?case by simp
next
  case (3 h a c xs)
  then obtain m where n: "n = Suc m" by (cases n) auto
  with 3 have "chain m h c = Some (c # xs)" by auto
  with 3 n show ?case by simp
qed

lemma chain_path:
  "chain n h a = Some xs \<Longrightarrow> path h xs \<and> hd xs = a"
proof (induction n arbitrary: a xs)
  case 0
  then show ?case by simp
next
  case (Suc n)
  show ?case
  proof (cases "NextNoBlock h a")
    case (Inl p)
    with Suc.prems show ?thesis by simp
  next
    case (Inr r)
    show ?thesis
    proof (cases r)
      case None
      with Inr Suc.prems show ?thesis by auto
    next
      case (Some c)
      with Inr Suc.prems obtain ys where ys: "chain n h c = Some ys" "xs = a # ys"
        by (auto split: option.splits)
      from Suc.IH[OF ys(1)] have "path h ys" "hd ys = c" by auto
      then show ?thesis using ys Inr Some by (cases ys) auto
    qed
  qed
qed

lemma distinct_length_le:
  "distinct xs \<Longrightarrow> \<forall>a\<in>set xs. a < (n::nat) \<Longrightarrow> length xs \<le> n"
proof -
  assume d: "distinct xs" and b: "\<forall>a\<in>set xs. a < n"
  have "card (set xs) \<le> card {..<n}"
    by (rule card_mono) (use b in auto)
  with d show ?thesis by (simp add: distinct_card)
qed

lemma wf_chain_items_from_head:
  assumes "wf_chain b xs"
  shows "items_from_head b = Some xs"
proof -
  from assms have p: "path b xs" and h: "head b = Some (hd xs)"
    and d: "distinct (map (lnk b) xs)"
    by (auto simp: wf_chain_def)
  from d have "distinct xs" by (rule distinct_map[THEN iffD1, THEN conjunct1])
  moreover have "\<forall>a\<in>set xs. a < length (items b)" using path_valid[OF p] by blast
  ultimately have "length xs \<le> length (items b)" by (rule distinct_length_le)
  with p h show ?thesis by (simp add: items_from_head_def path_chain)
qed

lemma NextNoBlock_frame:
  assumes "items h' = items h" "length (links h') = length (links h)"
    "\<forall>l<length (links h). next_item (links h' ! l) = next_item (links h ! l)"
  shows "NextNoBlock h' a = NextNoBlock h a"
  using assms
  by (auto simp: NextNoBlock_def item_link_def item_at_def link_at_def
      split: option.splits sum.splits)

lemma path_cong:
  "path h xs \<Longrightarrow> \<forall>a\<in>set xs. NextNoBlock h' a = NextNoBlock h a \<Longrightarrow> path h' xs"
  by (induction h xs rule: path.induct) auto

lemma path_snoc:
  "path h xs \<Longrightarrow> \<forall>a\<in>set (butlast xs). NextNoBlock h' a = NextNoBlock h a \<Longrightarrow>
     NextNoBlock h' (last xs) = Inr (Some n) \<Longrightarrow> NextNoBlock h' n = Inr None \<Longrightarrow>
     path h' (xs @ [n])"
  by (induction h xs rule: path.induct) auto

lemma path_tl:
  "path h xs \<Longrightarrow> 2 \<le> length xs \<Longrightarrow> path h (tl xs)"
  by (cases "(h, xs)" rule: path.cases) auto

lemma path_hd_next:
  "path h xs \<Longrightarrow> NextNoBlock h (hd xs) = Inr (if 2 \<le> length xs then Some (hd (tl xs)) else None)"
  by (cases "(h, xs)" rule: path.cases) auto

subsection \<open>advanceHead\<close>

lemma advanceHead_Inr:
  assumes "advanceHead b = Inr b'"
  shows "\<exists>a n. head b = Some a \<and> NextNoBlock b a = Inr (Some n) \<and>
            \<not> droppedCh (links b ! lnk b a) \<and>
            b' = b\<lparr>links := (links b)[lnk b a := (links b ! lnk b a)\<lparr>droppedCh := True\<rparr>],
                   head := Some n, size_b := size_b b - 1,
                   trace := trace b @ [CloseDroppedCh (lnk b a), StoreHead n, AddSize (- 1)]\<rparr>"
proof -
  from assms obtain a l nx b1 b2 where
    1: "Head b = Inr a" and 2: "item_link b a = Inr l" and 3: "load_next b l = Inr nx"
    and 4: "close_droppedCh l b = Inr b1" and 5: "store_head nx b1 = Inr b2"
    and 6: "b' = add_size (- 1) b2"
    unfolding advanceHead_def bind_p_Inr by auto
  from 2 have a: "a < length (items b)" and l: "l = lnk b a" "l < length (links b)"
    by (simp_all add: item_link_Inr)
  from 5 obtain n where n: "nx = Some n"
    and b2: "b2 = b1\<lparr>head := Some n, trace := trace b1 @ [StoreHead n]\<rparr>"
    by (auto simp: store_head_Inr)
  from 3 n have "next_item (links b ! l) = Some n" by (simp add: load_next_Inr)
  then have "NextNoBlock b a = Inr (Some n)" using a l by (simp add: NextNoBlock_eq)
  moreover from 1 have "head b = Some a" by (simp add: Head_Inr)
  moreover from 4 have "\<not> droppedCh (links b ! lnk b a)" by (simp add: close_droppedCh_Inr l)
  moreover from 4 6 b2 have "b' = b\<lparr>links := (links b)[lnk b a := (links b ! lnk b a)\<lparr>droppedCh := True\<rparr>],
                   head := Some n, size_b := size_b b - 1,
                   trace := trace b @ [CloseDroppedCh (lnk b a), StoreHead n, AddSize (- 1)]\<rparr>"
    by (simp add: close_droppedCh_Inr l add_size_def)
  ultimately show ?thesis by blast
qed

lemma advanceHead_total:
  assumes "head b = Some a" "NextNoBlock b a = Inr (Some n)" "\<not> droppedCh (links b ! lnk b a)"
  shows "\<exists>b'. advanceHead b = Inr b'"
proof -
  from NextNoBlock_valid[OF assms(2)] have v: "a < length (items b)" "lnk b a < length (links b)"
    "next_item (links b ! lnk b a) = Some n" by auto
  show ?thesis
    unfolding advanceHead_def bind_p_Inr
    using assms(1,3) v
    by (simp add: Head_Inr item_link_Inr load_next_Inr close_droppedCh_Inr store_head_Inr)
qed

lemma wf_chain_advanceHead:
  assumes wf: "wf_chain b xs" and adv: "advanceHead b = Inr b'"
  shows "wf_chain b' (tl xs) \<and> 2 \<le> length xs"
proof -
  from advanceHead_Inr[OF adv] obtain a n where
    hd: "head b = Some a" and nx: "NextNoBlock b a = Inr (Some n)"
    and b': "b' = b\<lparr>links := (links b)[lnk b a := (links b ! lnk b a)\<lparr>droppedCh := True\<rparr>],
                   head := Some n, size_b := size_b b - 1,
                   trace := trace b @ [CloseDroppedCh (lnk b a), StoreHead n, AddSize (- 1)]\<rparr>"
    by blast
  from wf have p: "path b xs" and a: "a = hd xs" using hd by (auto simp: wf_chain_def)
  from path_hd_next[OF p] nx a have len: "2 \<le> length xs" and n: "n = hd (tl xs)"
    by (auto split: if_splits)
  then obtain c ys where xs: "xs = a # c # ys" using a
    by (cases xs; cases "tl xs") auto
  have items': "items b' = items b" and len': "length (links b') = length (links b)"
    and links': "links b' = (links b)[lnk b a := (links b ! lnk b a)\<lparr>droppedCh := True\<rparr>]"
    and head': "head b' = Some n" and tail': "tail b' = tail b"
    and size': "size_b b' = size_b b - 1"
    by (simp_all add: b')
  have nxt': "\<forall>l<length (links b). next_item (links b' ! l) = next_item (links b ! l)"
  proof (intro allI impI)
    fix l assume "l < length (links b)"
    then show "next_item (links b' ! l) = next_item (links b ! l)"
      by (cases "l = lnk b a") (auto simp: links')
  qed
  have NB: "\<And>x. NextNoBlock b' x = NextNoBlock b x"
    by (rule NextNoBlock_frame[OF items' len' nxt'])
  have lnk': "lnk b' = lnk b" by (rule ext) (simp add: lnk_def items')
  have p': "path b' (tl xs)"
    by (rule path_cong[OF path_tl[OF p len]]) (simp add: NB)
  from wf have d: "distinct (map (lnk b) xs)"
    and nd: "list_all (\<lambda>x. \<not> droppedCh (links b ! lnk b x)) xs"
    and nch: "\<not> ch (links b ! lnk b (last xs))"
    and sz: "size_b b = of_nat (length xs) - 1"
    and tl: "tail b = Some (last xs)"
    by (auto simp: wf_chain_def)
  have neq: "\<And>x. x \<in> set (tl xs) \<Longrightarrow> lnk b a \<noteq> lnk b x"
    using d by (auto simp: xs)
  have same: "\<And>x. x \<in> set (tl xs) \<Longrightarrow> links b' ! lnk b x = links b ! lnk b x"
    by (simp add: links' neq)
  have d': "distinct (map (lnk b') (tl xs))"
    using d by (simp add: xs lnk')
  have nd': "list_all (\<lambda>x. \<not> droppedCh (links b' ! lnk b' x)) (tl xs)"
    unfolding list_all_iff lnk'
  proof
    fix x assume x: "x \<in> set (tl xs)"
    then have "x \<in> set xs" by (simp add: xs)
    with nd have "\<not> droppedCh (links b ! lnk b x)" by (simp add: list_all_iff)
    with same[OF x] show "\<not> droppedCh (links b' ! lnk b x)" by simp
  qed
  have lt: "last (tl xs) \<in> set (tl xs)" by (simp add: xs)
  have "last (tl xs) = last xs" by (simp add: xs)
  with nch same[OF lt] have nch': "\<not> ch (links b' ! lnk b' (last (tl xs)))"
    by (simp add: lnk')
  have sz': "size_b b' = of_nat (length (tl xs)) - 1"
    using sz by (simp add: xs size')
  have hd': "head b' = Some (hd (tl xs))" by (simp add: head' n)
  have tl': "tail b' = Some (last (tl xs))" using tl by (simp add: tail' xs)
  show ?thesis
    unfolding wf_chain_def by (intro conjI p' hd' tl' d' nd' nch' sz' len)
qed

lemma wf_chain_advanceHead_total:
  assumes wf: "wf_chain b xs" and len: "2 \<le> length xs"
  shows "\<exists>b'. advanceHead b = Inr b'"
proof -
  from wf have p: "path b xs" and h: "head b = Some (hd xs)"
    and nd: "list_all (\<lambda>x. \<not> droppedCh (links b ! lnk b x)) xs"
    by (auto simp: wf_chain_def)
  from path_hd_next[OF p] len have nx: "NextNoBlock b (hd xs) = Inr (Some (hd (tl xs)))" by simp
  from path_nonempty[OF p] obtain a ys where xs: "xs = a # ys" by (cases xs) auto
  with nd have "\<not> droppedCh (links b ! lnk b (hd xs))" by simp
  with h nx show ?thesis by (rule advanceHead_total)
qed

lemma wf_chain_valid:
  assumes "wf_chain b xs" and "a \<in> set xs"
  shows "a < length (items b)" and "lnk b a < length (links b)"
  using assms path_valid[of b xs a] by (auto simp: wf_chain_def)

subsection \<open>Append\<close>

lemma head_stores_append: "head_stores (xs @ ys) = head_stores xs + head_stores ys"
  by (induction xs rule: head_stores.induct) auto

lemma Append_Inr:
  assumes "Append now idx evs b = Inr b'"
  shows "\<exists>t l b0 b3 b4. tail b = Some t \<and>
     b0 = b\<lparr>items := items b @
               [\<lparr>Events = evs, item_Index = idx, Err = None,
                 link = length (links b), createdAt = now\<rparr>],
             links := links b @ [\<lparr>next_item = None, ch = False, droppedCh = False\<rparr>]\<rparr> \<and>
     item_link b0 t = Inr l \<and>
     b3 = b0\<lparr>links := (links b0)[l := (links b0 ! l)\<lparr>next_item := Some (length (items b))\<rparr>],
             tail := Some (length (items b)), size_b := size_b b + 1,
             trace := trace b @ [StoreNext l (length (items b)), StoreTail (length (items b)), AddSize 1]\<rparr> \<and>
     (if maxSize b <s size_b b + 1 then advanceHead b3 = Inr b4 else b4 = b3) \<and>
     close_ch l b4 = Inr b'"
  using assms
  unfolding Append_def newBufferItem_def appendItem_def Let_def bind_p_Inr prod.case
  by (auto simp: Tail_Inr store_next_Inr store_tail_def add_size_def item_link_Inr split: if_splits)


lemma sint_succ_le: "sint (x + 1 :: 64 word) \<le> sint x + 1"
proof -
  have "- (2 ^ 63) \<le> sint x" using sint_ge[of x] by simp
  then have "- (2 ^ 63) \<le> sint x + 1" by simp
  then have "signed_take_bit 63 (sint x + 1) \<le> sint x + 1"
    by (simp only: signed_take_bit_int_less_eq_self_iff)
  then show ?thesis by (simp add: sint_word_ariths)
qed

lemma sless_succ_eq:
  assumes "s \<le>s m" and "m <s s + (1 :: 64 word)"
  shows "s = m"
proof -
  from assms have "sint s \<le> sint m" "sint m < sint (s + 1)"
    by (simp_all add: word_sle_eq word_sless_alt)
  with sint_succ_le[of s] have "sint s = sint m" by linarith
  then show ?thesis by (rule signed_word_eqI)
qed

lemmas buffer_defs =
  newEventBuffer_def newBufferItem_def Append_def appendItem_def advanceHead_def
  bind_p_def Tail_def Head_def item_link_def item_at_def link_at_def store_next_def
  store_tail_def store_head_def add_size_def close_ch_def close_droppedCh_def load_next_def
  Let_def

lemma buf_new_eq:
  "buf_new =
     \<lparr>items = [\<lparr>Events = [], item_Index = 0, Err = None, link = 0, createdAt = 0\<rparr>],
      links = [\<lparr>next_item = None, ch = False, droppedCh = False\<rparr>],
      size_b = 0, head = Some 0, tail = Some 0, maxSize = 1, maxItemTTL = 0,
      trace = [StoreHead 0, StoreTail 0]\<rparr>"
  by (simp add: buf_new_def empty_heap_def newEventBuffer_def newBufferItem_def)

lemma Append_buf_new: "Append 5 1 [ev_jobs_A] buf_new = Inr buf_one"
  by (simp add: buf_new_eq buf_one_def buffer_defs word_sless_alt)

lemma Append_buf_one: "Append 7 2 [ev_nodes_N] buf_one = Inr buf_two"
  by (simp add: buf_one_def buf_two_def buffer_defs word_sless_alt)

text \<open>
  Claim C1 (the order of the writes of an append). Whenever \<open>Append\<close> completes, the
  writes it has added to the log are, in this order: the store of the new item into the
  \<open>next\<close> of the old tail's link, the store of the new item into \<open>tail\<close>, the
  increment of \<open>size\<close>, then, exactly when the incremented size exceeds \<open>maxSize\<close>, the
  three writes of \<open>advanceHead\<close> (the close of the old head's \<open>droppedCh\<close>, the store
  of its successor into \<open>head\<close>, the decrement of \<open>size\<close>), and last of all the close
  of the old tail's \<open>ch\<close>. The new item is the one allocated by the call, at address
  \<open>length (items b)\<close>; at the end the old tail's link has it as \<open>next\<close> and its
  \<open>ch\<close> is closed.
\<close>

theorem Append_order:
  assumes "Append now idx evs b = Inr b'"
  shows "\<exists>oldTail l adv.
           tail b = Some oldTail \<and> lnk b' oldTail = l \<and>
           trace b' = trace b @
             [StoreNext l (length (items b)), StoreTail (length (items b)), AddSize 1] @
             adv @ [CloseCh l] \<and>
           (if maxSize b <s size_b b + 1
            then \<exists>old n. head b = Some old \<and> head b' = Some n \<and>
                   adv = [CloseDroppedCh (lnk b' old), StoreHead n, AddSize (- 1)]
            else adv = [] \<and> head b' = head b) \<and>
           next_item (links b' ! l) = Some (length (items b)) \<and> ch (links b' ! l)"
proof -
  from Append_Inr[OF assms] obtain t l b0 b3 b4 where
    t: "tail b = Some t"
    and b0: "b0 = b\<lparr>items := items b @
               [\<lparr>Events = evs, item_Index = idx, Err = None,
                 link = length (links b), createdAt = now\<rparr>],
             links := links b @ [\<lparr>next_item = None, ch = False, droppedCh = False\<rparr>]\<rparr>"
    and l: "item_link b0 t = Inr l"
    and b3: "b3 = b0\<lparr>links := (links b0)[l := (links b0 ! l)\<lparr>next_item := Some (length (items b))\<rparr>],
             tail := Some (length (items b)), size_b := size_b b + 1,
             trace := trace b @ [StoreNext l (length (items b)), StoreTail (length (items b)), AddSize 1]\<rparr>"
    and b4: "if maxSize b <s size_b b + 1 then advanceHead b3 = Inr b4 else b4 = b3"
    and cl: "close_ch l b4 = Inr b'"
    by blast
  from l have l0: "l < length (links b0)" by (simp add: item_link_Inr)
  have tr3: "trace b3 = trace b @ [StoreNext l (length (items b)), StoreTail (length (items b)), AddSize 1]"
    and it3: "items b3 = items b0" and hd3: "head b3 = head b"
    and len3: "length (links b3) = length (links b0)"
    and nx3: "next_item (links b3 ! l) = Some (length (items b))"
    using l0 by (simp_all add: b3 b0)
  from cl have tr': "trace b' = trace b4 @ [CloseCh l]" and it': "items b' = items b4"
    and hd': "head b' = head b4" and l4: "l < length (links b4)"
    and links': "links b' = (links b4)[l := (links b4 ! l)\<lparr>ch := True\<rparr>]"
    by (simp_all add: close_ch_Inr)
  have step: "\<exists>adv. trace b4 = trace b3 @ adv \<and> items b4 = items b3 \<and>
           next_item (links b4 ! l) = next_item (links b3 ! l) \<and>
           (if maxSize b <s size_b b + 1
            then \<exists>old n. head b = Some old \<and> head b4 = Some n \<and>
                   adv = [CloseDroppedCh (lnk b3 old), StoreHead n, AddSize (- 1)]
            else adv = [] \<and> head b4 = head b)"
  proof (cases "maxSize b <s size_b b + 1")
    case True
    with b4 have "advanceHead b3 = Inr b4" by simp
    from advanceHead_Inr[OF this] obtain a n where
      a: "head b3 = Some a"
      and e: "b4 = b3\<lparr>links := (links b3)[lnk b3 a := (links b3 ! lnk b3 a)\<lparr>droppedCh := True\<rparr>],
                   head := Some n, size_b := size_b b3 - 1,
                   trace := trace b3 @ [CloseDroppedCh (lnk b3 a), StoreHead n, AddSize (- 1)]\<rparr>"
      by blast
    have "next_item (links b4 ! l) = next_item (links b3 ! l)"
      using l0 len3 by (cases "l = lnk b3 a") (simp_all add: e)
    with True a hd3 show ?thesis by (simp add: e)
  next
    case False
    with b4 hd3 show ?thesis by simp
  qed
  then obtain adv where
    tr4: "trace b4 = trace b3 @ adv" and it4: "items b4 = items b3"
    and nx4: "next_item (links b4 ! l) = next_item (links b3 ! l)"
    and adv: "if maxSize b <s size_b b + 1
            then \<exists>old n. head b = Some old \<and> head b4 = Some n \<and>
                   adv = [CloseDroppedCh (lnk b3 old), StoreHead n, AddSize (- 1)]
            else adv = [] \<and> head b4 = head b"
    by blast
  have lnk': "lnk b' = lnk b3" by (rule ext) (simp add: lnk_def it' it4)
  have 1: "lnk b' t = l"
    using l by (simp add: item_link_Inr lnk_def it' it4 it3)
  have 2: "trace b' = trace b @
             [StoreNext l (length (items b)), StoreTail (length (items b)), AddSize 1] @
             adv @ [CloseCh l]"
    by (simp add: tr' tr4 tr3)
  have 3: "if maxSize b <s size_b b + 1
            then \<exists>old n. head b = Some old \<and> head b' = Some n \<and>
                   adv = [CloseDroppedCh (lnk b' old), StoreHead n, AddSize (- 1)]
            else adv = [] \<and> head b' = head b"
    using adv by (auto simp: hd' lnk' split: if_splits)
  have 4: "next_item (links b' ! l) = Some (length (items b))" "ch (links b' ! l)"
    using l4 by (simp_all add: links' nx4 nx3)
  from t 1 2 3 4 show ?thesis by blast
qed

theorem Append_order_witness:
  "Append 7 2 [ev_nodes_N] buf_one = Inr buf_two
   \<and> trace buf_two = trace buf_one @
        [StoreNext 1 2, StoreTail 2, AddSize 1, CloseDroppedCh 0, StoreHead 1, AddSize (- 1),
         CloseCh 1]"
proof -
  have h: "Append 7 2 [ev_nodes_N] buf_one = Inr buf_two" by (rule Append_buf_one)
  show ?thesis
    using h Append_order [OF h] by (simp add: buf_one_def buf_two_def)
qed

text \<open>
  Claim C2 (an append keeps the size within the capacity). If \<open>size \<le> maxSize\<close> before
  an \<open>Append\<close> that completes, then \<open>size \<le> maxSize\<close> after it. When the increment
  takes the size above \<open>maxSize\<close> the call stores to \<open>head\<close> exactly once and leaves
  \<open>size = maxSize\<close>; otherwise it does not store to \<open>head\<close> and the size has grown by
  one. The comparisons are those of \<open>int64\<close>.
\<close>

theorem Append_size_bound:
  assumes le: "size_b b \<le>s maxSize b" and app: "Append now idx evs b = Inr b'"
  shows "maxSize b' = maxSize b \<and> size_b b' \<le>s maxSize b' \<and>
         (if maxSize b <s size_b b + 1
          then size_b b' = maxSize b \<and> head_stores (trace b') = Suc (head_stores (trace b))
          else size_b b' = size_b b + 1 \<and> head_stores (trace b') = head_stores (trace b))"
proof -
  from Append_Inr[OF app] obtain t l b0 b3 b4 where
    b0: "b0 = b\<lparr>items := items b @
               [\<lparr>Events = evs, item_Index = idx, Err = None,
                 link = length (links b), createdAt = now\<rparr>],
             links := links b @ [\<lparr>next_item = None, ch = False, droppedCh = False\<rparr>]\<rparr>"
    and b3: "b3 = b0\<lparr>links := (links b0)[l := (links b0 ! l)\<lparr>next_item := Some (length (items b))\<rparr>],
             tail := Some (length (items b)), size_b := size_b b + 1,
             trace := trace b @ [StoreNext l (length (items b)), StoreTail (length (items b)), AddSize 1]\<rparr>"
    and b4: "if maxSize b <s size_b b + 1 then advanceHead b3 = Inr b4 else b4 = b3"
    and cl: "close_ch l b4 = Inr b'"
    by blast
  have f3: "size_b b3 = size_b b + 1" "maxSize b3 = maxSize b"
    "head_stores (trace b3) = head_stores (trace b)"
    by (simp_all add: b3 b0 head_stores_append)
  from cl have f': "size_b b' = size_b b4" "maxSize b' = maxSize b4"
    "head_stores (trace b') = head_stores (trace b4)"
    by (simp_all add: close_ch_Inr head_stores_append)
  show ?thesis
  proof (cases "maxSize b <s size_b b + 1")
    case True
    with b4 have "advanceHead b3 = Inr b4" by simp
    from advanceHead_Inr[OF this] have f4: "size_b b4 = size_b b3 - 1" "maxSize b4 = maxSize b3"
      "head_stores (trace b4) = Suc (head_stores (trace b3))"
      by (auto simp: head_stores_append)
    from sless_succ_eq[OF le True] have "size_b b = maxSize b" .
    with True f3 f4 f' show ?thesis by simp
  next
    case False
    with b4 have "b4 = b3" by simp
    with False f3 f' show ?thesis by (simp add: word_sle_eq word_sless_alt)
  qed
qed

theorem Append_size_bound_witness:
  "size_b buf_one \<le>s maxSize buf_one
   \<and> Append 7 2 [ev_nodes_N] buf_one = Inr buf_two
   \<and> maxSize buf_one <s size_b buf_one + 1
   \<and> size_b buf_two = maxSize buf_one
   \<and> head_stores (trace buf_two) = Suc (head_stores (trace buf_one))"
proof -
  have le: "size_b buf_one \<le>s maxSize buf_one" by (simp add: buf_one_def)
  have h: "Append 7 2 [ev_nodes_N] buf_one = Inr buf_two" by (rule Append_buf_one)
  have gt: "maxSize buf_one <s size_b buf_one + 1" by (simp add: buf_one_def word_sless_alt)
  show ?thesis
    using le h gt Append_size_bound [OF le h] by simp
qed

subsection \<open>What the writer keeps true\<close>

lemma wf_chain_linked:
  assumes wf: "wf_chain b xs"
    and items3: "items b3 = items b @ [it]" and lit: "link it = length (links b)"
    and links3: "links b3 = (links b @ [\<lparr>next_item = None, ch = False, droppedCh = False\<rparr>])
                   [l := (links b ! l)\<lparr>next_item := Some (length (items b))\<rparr>]"
    and l: "l = lnk b (last xs)"
    and head3: "head b3 = head b" and tail3: "tail b3 = Some (length (items b))"
    and size3: "size_b b3 = size_b b + 1"
  shows "wf_chain b3 (xs @ [length (items b)])"
proof -
  let ?item = "length (items b)" and ?nl = "length (links b)"
  from wf have p: "path b xs" and hd: "head b = Some (hd xs)"
    and d: "distinct (map (lnk b) xs)"
    and nd: "list_all (\<lambda>a. \<not> droppedCh (links b ! lnk b a)) xs"
    and sz: "size_b b = of_nat (length xs) - 1"
    by (auto simp: wf_chain_def)
  have ne: "xs \<noteq> []" by (rule path_nonempty[OF p])
  have v: "\<And>a. a \<in> set xs \<Longrightarrow> a < ?item \<and> lnk b a < ?nl"
    using wf_chain_valid[OF wf] by blast
  have lnk3: "\<And>a. a \<in> set xs \<Longrightarrow> lnk b3 a = lnk b a"
    using v by (simp add: lnk_def items3 nth_append)
  have lnk3i: "lnk b3 ?item = ?nl" by (simp add: lnk_def items3 lit)
  have last: "last xs \<in> set xs" using ne by simp
  have l_lt: "l < ?nl" using v[OF last] l by simp
  have len3: "length (links b3) = Suc ?nl" and ilen3: "length (items b3) = Suc ?item"
    by (simp_all add: links3 items3)
  have at_l: "links b3 ! l = (links b ! l)\<lparr>next_item := Some ?item\<rparr>"
    using l_lt by (simp add: links3)
  have at_other: "\<And>k. k < ?nl \<Longrightarrow> k \<noteq> l \<Longrightarrow> links b3 ! k = links b ! k"
    by (simp add: links3 nth_append)
  have at_new: "links b3 ! ?nl = \<lparr>next_item = None, ch = False, droppedCh = False\<rparr>"
    using l_lt by (simp add: links3)
  have NB_old: "\<forall>a\<in>set (butlast xs). NextNoBlock b3 a = NextNoBlock b a"
  proof
    fix a assume a: "a \<in> set (butlast xs)"
    then have ax: "a \<in> set xs" by (rule in_set_butlastD)
    have "map (lnk b) xs = map (lnk b) (butlast xs) @ [lnk b (last xs)]"
      using ne by (subst append_butlast_last_id[OF ne, symmetric]) (simp del: append_butlast_last_id)
    with d have "lnk b (last xs) \<notin> set (map (lnk b) (butlast xs))" by simp
    with a have "lnk b a \<noteq> lnk b (last xs)" by (metis image_eqI set_map)
    then have neq: "lnk b a \<noteq> l" by (simp add: l)
    have "NextNoBlock b3 a = Inr (next_item (links b3 ! lnk b3 a))"
      using v[OF ax] by (intro NextNoBlock_eq) (simp_all add: ilen3 len3 lnk3[OF ax])
    also have "\<dots> = Inr (next_item (links b ! lnk b a))"
      using v[OF ax] neq by (simp add: lnk3[OF ax] at_other)
    also have "\<dots> = NextNoBlock b a"
      using v[OF ax] by (simp add: NextNoBlock_eq)
    finally show "NextNoBlock b3 a = NextNoBlock b a" .
  qed
  have NB_last: "NextNoBlock b3 (last xs) = Inr (Some ?item)"
    using v[OF last] l_lt by (simp add: NextNoBlock_eq ilen3 len3 lnk3[OF last] l[symmetric] at_l)
  have NB_new: "NextNoBlock b3 ?item = Inr None"
    by (simp add: NextNoBlock_eq ilen3 len3 lnk3i at_new)
  have p3: "path b3 (xs @ [?item])"
    by (rule path_snoc[OF p NB_old NB_last NB_new])
  have map3: "map (lnk b3) xs = map (lnk b) xs"
    by (rule map_cong) (simp_all add: lnk3)
  have "?nl \<notin> set (map (lnk b) xs)"
  proof
    assume "?nl \<in> set (map (lnk b) xs)"
    then obtain x where "x \<in> set xs" "lnk b x = ?nl" by auto
    with v[of x] show False by simp
  qed
  with d have d3: "distinct (map (lnk b3) (xs @ [?item]))"
    by (simp add: map3 lnk3i)
  have nd3: "list_all (\<lambda>a. \<not> droppedCh (links b3 ! lnk b3 a)) (xs @ [?item])"
    unfolding list_all_iff
  proof
    fix a assume "a \<in> set (xs @ [?item])"
    then consider "a \<in> set xs" | "a = ?item" by auto
    then show "\<not> droppedCh (links b3 ! lnk b3 a)"
    proof cases
      case 1
      with nd have n: "\<not> droppedCh (links b ! lnk b a)" by (simp add: list_all_iff)
      show ?thesis
      proof (cases "lnk b a = l")
        case True
        with n show ?thesis by (simp add: lnk3[OF 1] at_l)
      next
        case False
        with n v[OF 1] show ?thesis by (simp add: lnk3[OF 1] at_other)
      qed
    next
      case 2
      then show ?thesis by (simp add: lnk3i at_new)
    qed
  qed
  have nch3: "\<not> ch (links b3 ! lnk b3 (last (xs @ [?item])))"
    by (simp add: lnk3i at_new)
  have sz3: "size_b b3 = of_nat (length (xs @ [?item])) - 1"
    by (simp add: size3 sz)
  have hd3: "head b3 = Some (hd (xs @ [?item]))"
    using ne by (simp add: head3 hd)
  have tl3: "tail b3 = Some (last (xs @ [?item]))"
    by (simp add: tail3)
  show ?thesis
    unfolding wf_chain_def by (intro conjI p3 hd3 tl3 d3 nd3 nch3 sz3)
qed


lemma wf_chain_close_ch:
  assumes wf: "wf_chain b ys" and cl: "close_ch l b = Inr b'"
    and neq: "l \<noteq> lnk b (last ys)"
  shows "wf_chain b' ys"
proof -
  from cl have l: "l < length (links b)"
    and links': "links b' = (links b)[l := (links b ! l)\<lparr>ch := True\<rparr>]"
    and items': "items b' = items b" and head': "head b' = head b"
    and tail': "tail b' = tail b" and size': "size_b b' = size_b b"
    by (simp_all add: close_ch_Inr)
  have len': "length (links b') = length (links b)" by (simp add: links')
  have nth': "\<And>k. k < length (links b) \<Longrightarrow>
      next_item (links b' ! k) = next_item (links b ! k) \<and>
      droppedCh (links b' ! k) = droppedCh (links b ! k) \<and>
      (k \<noteq> l \<longrightarrow> ch (links b' ! k) = ch (links b ! k))"
    using l by (auto simp: links' nth_list_update)
  have NB: "\<And>x. NextNoBlock b' x = NextNoBlock b x"
    by (rule NextNoBlock_frame[OF items' len']) (simp add: nth')
  have lnk': "lnk b' = lnk b" by (rule ext) (simp add: lnk_def items')
  from wf have p: "path b ys" and hd: "head b = Some (hd ys)" and tl: "tail b = Some (last ys)"
    and d: "distinct (map (lnk b) ys)"
    and nd: "list_all (\<lambda>a. \<not> droppedCh (links b ! lnk b a)) ys"
    and nch: "\<not> ch (links b ! lnk b (last ys))"
    and sz: "size_b b = of_nat (length ys) - 1"
    by (auto simp: wf_chain_def)
  have v: "\<And>a. a \<in> set ys \<Longrightarrow> lnk b a < length (links b)"
    using wf_chain_valid[OF wf] by blast
  have p': "path b' ys" by (rule path_cong[OF p]) (simp add: NB)
  have nd': "list_all (\<lambda>a. \<not> droppedCh (links b' ! lnk b' a)) ys"
    using nd v by (simp add: list_all_iff lnk' nth')
  have "last ys \<in> set ys" using path_nonempty[OF p] by simp
  from v[OF this] neq nch have nch': "\<not> ch (links b' ! lnk b' (last ys))"
    by (simp add: lnk' nth')
  show ?thesis
    unfolding wf_chain_def
    using p' hd tl d nd' nch' sz by (simp add: head' tail' size' lnk')
qed

lemma wf_chain_Append:
  assumes wf: "wf_chain b xs" and app: "Append now idx evs b = Inr b'"
  shows "wf_chain b'
           (if maxSize b <s size_b b + 1 then tl (xs @ [length (items b)])
            else xs @ [length (items b)])"
proof -
  let ?item = "length (items b)" and ?nl = "length (links b)"
  from Append_Inr[OF app] obtain t l b0 b3 b4 where
    t: "tail b = Some t"
    and b0: "b0 = b\<lparr>items := items b @
               [\<lparr>Events = evs, item_Index = idx, Err = None,
                 link = length (links b), createdAt = now\<rparr>],
             links := links b @ [\<lparr>next_item = None, ch = False, droppedCh = False\<rparr>]\<rparr>"
    and l: "item_link b0 t = Inr l"
    and b3: "b3 = b0\<lparr>links := (links b0)[l := (links b0 ! l)\<lparr>next_item := Some (length (items b))\<rparr>],
             tail := Some (length (items b)), size_b := size_b b + 1,
             trace := trace b @ [StoreNext l (length (items b)), StoreTail (length (items b)), AddSize 1]\<rparr>"
    and b4: "if maxSize b <s size_b b + 1 then advanceHead b3 = Inr b4 else b4 = b3"
    and cl: "close_ch l b4 = Inr b'"
    by blast
  from wf have p: "path b xs" and tl: "tail b = Some (last xs)"
    and nch: "\<not> ch (links b ! lnk b (last xs))"
    by (auto simp: wf_chain_def)
  have ne: "xs \<noteq> []" by (rule path_nonempty[OF p])
  from t tl have t_eq: "t = last xs" by simp
  have tv: "t < ?item" "lnk b t < ?nl"
    using wf_chain_valid[OF wf, of t] ne by (simp_all add: t_eq)
  from l tv have l_eq: "l = lnk b (last xs)"
    by (simp add: item_link_Inr b0 lnk_def nth_append t_eq)
  have l_lt: "l < ?nl" using tv by (simp add: l_eq t_eq)
  have wf3: "wf_chain b3 (xs @ [?item])"
  proof (rule wf_chain_linked[OF wf _ _ _ l_eq])
    show "items b3 = items b @ [\<lparr>Events = evs, item_Index = idx, Err = None,
                 link = length (links b), createdAt = now\<rparr>]"
      by (simp add: b3 b0)
    show "links b3 = (links b @ [\<lparr>next_item = None, ch = False, droppedCh = False\<rparr>])
                   [l := (links b ! l)\<lparr>next_item := Some (length (items b))\<rparr>]"
      using l_lt by (simp add: b3 b0 nth_append)
  qed (simp_all add: b3 b0)
  have lnk3i: "lnk b3 ?item = ?nl" by (simp add: lnk_def b3 b0)
  have nch3: "\<not> ch (links b3 ! l)"
    using nch l_lt by (simp add: b3 b0 nth_append l_eq)
  show ?thesis
  proof (cases "maxSize b <s size_b b + 1")
    case True
    with b4 have adv: "advanceHead b3 = Inr b4" by simp
    from wf_chain_advanceHead[OF wf3 adv] have wf4: "wf_chain b4 (tl (xs @ [?item]))" by simp
    from advanceHead_Inr[OF adv] obtain a n where
      nda: "\<not> droppedCh (links b3 ! lnk b3 a)"
      and b4e: "b4 = b3\<lparr>links := (links b3)[lnk b3 a := (links b3 ! lnk b3 a)\<lparr>droppedCh := True\<rparr>],
                   head := Some n, size_b := size_b b3 - 1,
                   trace := trace b3 @ [CloseDroppedCh (lnk b3 a), StoreHead n, AddSize (- 1)]\<rparr>"
      by blast
    have it4: "items b4 = items b3" by (simp add: b4e)
    have last4: "last (tl (xs @ [?item])) = ?item" using ne by (cases xs) auto
    have "lnk b4 (last (tl (xs @ [?item]))) = ?nl"
      by (simp add: last4 lnk_def it4) (simp add: b3 b0)
    with l_lt have "l \<noteq> lnk b4 (last (tl (xs @ [?item])))" by simp
    from wf_chain_close_ch[OF wf4 cl this] True show ?thesis by simp
  next
    case False
    with b4 have b4e: "b4 = b3" by simp
    have "lnk b3 (last (xs @ [?item])) = ?nl" by (simp add: lnk3i)
    with l_lt have "l \<noteq> lnk b3 (last (xs @ [?item]))" by simp
    from wf_chain_close_ch[OF wf3 cl[unfolded b4e] this] False show ?thesis by simp
  qed
qed

lemma wf_chain_new:
  "wf_chain (newEventBuffer now sz ttl h) [length (items h)]"
  by (simp add: wf_chain_def newEventBuffer_def newBufferItem_def NextNoBlock_def
      item_link_def item_at_def link_at_def lnk_def)

lemma prune_Inr:
  assumes "prune clock k b = Inr b'"
  shows "b' = b \<or>
         (\<exists>hd_item it b1. Head b = Inr hd_item \<and> Len b \<noteq> 0 \<and> item_at b hd_item = Some it \<and>
            maxItemTTL b <s time_Since (clock k) (createdAt it) \<and>
            advanceHead b = Inr b1 \<and> prune clock (Suc k) b1 = Inr b')"
  using assms
  by (subst (asm) prune.simps) (simp split: sum.splits option.splits if_splits)

lemma wf_chain_prune:
  "prune clock k b = Inr b' \<Longrightarrow> wf_chain b xs \<Longrightarrow> \<exists>ys. wf_chain b' ys"
proof (induction clock k b arbitrary: xs rule: prune.induct)
  case (1 clock k b)
  from prune_Inr[OF "1.prems"(1)] show ?case
  proof (elim disjE exE conjE)
    assume "b' = b"
    with "1.prems" show ?thesis by blast
  next
    fix hd_item it b1
    assume c: "Head b = Inr hd_item" "Len b \<noteq> 0" "item_at b hd_item = Some it"
      "maxItemTTL b <s time_Since (clock k) (createdAt it)"
      and adv: "advanceHead b = Inr b1" and pr: "prune clock (Suc k) b1 = Inr b'"
    from wf_chain_advanceHead[OF "1.prems"(2) adv] have wf1: "wf_chain b1 (tl xs)" by simp
    from "1.IH"[OF c adv pr wf1] show ?thesis .
  qed
qed

lemma reachable_wf_chain: "reachable b \<Longrightarrow> \<exists>xs. wf_chain b xs"
proof (induction rule: reachable.induct)
  case (reach_new now sz ttl h)
  show ?case using wf_chain_new by blast
next
  case (reach_Append b now index events b')
  then obtain xs where "wf_chain b xs" by blast
  from wf_chain_Append[OF this reach_Append(2)] show ?case by blast
next
  case (reach_advanceHead b b')
  then obtain xs where "wf_chain b xs" by blast
  from wf_chain_advanceHead[OF this reach_advanceHead(2)] show ?case by blast
next
  case (reach_prune b clock k b')
  then obtain xs where "wf_chain b xs" by blast
  from wf_chain_prune[OF reach_prune(2) this] show ?case .
qed

lemma sint_of_nat_pred:
  assumes "1 \<le> n" and "n \<le> 2 ^ 63"
  shows "sint (of_nat n - 1 :: 64 word) = int n - 1"
proof -
  have "(of_nat n - 1 :: 64 word) = word_of_int (int n - 1)" by simp
  then have "sint (of_nat n - 1 :: 64 word) = signed_take_bit 63 (int n - 1)"
    by (simp only: sint_sbintrunc') simp
  also have "\<dots> = int n - 1"
    using assms by (intro signed_take_bit_int_eq_self) simp_all
  finally show ?thesis .
qed

lemma wf_chain_length:
  assumes "wf_chain b xs"
  shows "1 \<le> length xs" and "length xs \<le> length (items b)"
proof -
  from assms have p: "path b xs" and d: "distinct (map (lnk b) xs)"
    by (auto simp: wf_chain_def)
  from path_nonempty[OF p] show "1 \<le> length xs" by (cases xs) auto
  from d have "distinct xs" by (rule distinct_map[THEN iffD1, THEN conjunct1])
  moreover have "\<forall>a\<in>set xs. a < length (items b)" using path_valid[OF p] by blast
  ultimately show "length xs \<le> length (items b)" by (rule distinct_length_le)
qed

lemma reachable_buf_two: "reachable buf_two"
proof -
  have "reachable buf_new" unfolding buf_new_def by (rule reach_new)
  then have "reachable buf_one" by (rule reach_Append[OF _ Append_buf_new])
  then show ?thesis by (rule reach_Append[OF _ Append_buf_one])
qed

lemma items_from_head_buf_two: "items_from_head buf_two = Some [1, 2]"
  by (simp add: items_from_head_def buf_two_def NextNoBlock_def item_link_def item_at_def
      link_at_def)

text \<open>
  Claim C7 (\<open>size\<close> is the number of items reachable from \<open>head\<close>, the sentinel
  included). As stated it fails on the buffer \<open>newEventBuffer\<close> returns: one item, the
  sentinel, is reachable from the head, and \<open>size\<close> is 0.
\<close>

theorem size_counts_sentinel_counterexample:
  "reachable buf_new \<and> items_from_head buf_new = Some [0] \<and> size_b buf_new = 0
   \<and> size_b buf_new \<noteq> of_nat (length [0 :: addr])"
proof -
  have "reachable buf_new" unfolding buf_new_def by (rule reach_new)
  moreover have "items_from_head buf_new = Some [0]"
    by (simp add: buf_new_eq items_from_head_def NextNoBlock_def item_link_def item_at_def
        link_at_def)
  ultimately show ?thesis by (simp add: buf_new_eq)
qed

text \<open>
  Claim C7, amended: in every buffer state reachable from construction by \<open>Append\<close>,
  \<open>advanceHead\<close> and \<open>prune\<close>, following \<open>next\<close> from the head ends at an item whose
  \<open>next\<close> is nil, and \<open>size\<close> is the number of items met minus one: the head item
  itself is not counted. The equation is one of \<open>int64\<close> values; with fewer than
  \<open>2 ^ 63\<close> items allocated, \<open>Len\<close> is that number as an integer.
\<close>

theorem size_counts_items_after_head:
  assumes "reachable b"
  shows "\<exists>xs. items_from_head b = Some xs \<and> size_b b = of_nat (length xs) - 1 \<and>
              (length (items b) < 2 ^ 63 \<longrightarrow> Len b = int (length xs) - 1)"
proof -
  from reachable_wf_chain[OF assms] obtain xs where wf: "wf_chain b xs" by blast
  from wf have sz: "size_b b = of_nat (length xs) - 1" by (simp add: wf_chain_def)
  have "Len b = int (length xs) - 1" if "length (items b) < 2 ^ 63"
  proof -
    from wf_chain_length[OF wf] that have "1 \<le> length xs" "length xs \<le> 2 ^ 63" by simp_all
    then show ?thesis unfolding Len_def sz by (rule sint_of_nat_pred)
  qed
  with wf_chain_items_from_head[OF wf] sz show ?thesis by blast
qed

theorem size_counts_items_after_head_witness:
  "reachable buf_two \<and> items_from_head buf_two = Some [1, 2] \<and> size_b buf_two = 1
   \<and> length (items buf_two) < 2 ^ 63 \<and> Len buf_two = 1"
  using reachable_buf_two size_counts_items_after_head [OF reachable_buf_two]
  by (simp add: items_from_head_buf_two) (simp add: buf_two_def Len_def)

subsection \<open>The writer does not panic\<close>

lemma wf_chain_Append_total:
  assumes wf: "wf_chain b xs"
  shows "\<exists>b'. Append now idx evs b = Inr b'"
proof -
  let ?item = "length (items b)" and ?nl = "length (links b)"
  define b0 where "b0 = b\<lparr>items := items b @
               [\<lparr>Events = evs, item_Index = idx, Err = None,
                 link = length (links b), createdAt = now\<rparr>],
             links := links b @ [\<lparr>next_item = None, ch = False, droppedCh = False\<rparr>]\<rparr>"
  define l where "l = lnk b (last xs)"
  define b3 where "b3 = b0\<lparr>links := (links b0)[l := (links b0 ! l)\<lparr>next_item := Some ?item\<rparr>],
             tail := Some ?item, size_b := size_b b + 1,
             trace := trace b @ [StoreNext l ?item, StoreTail ?item, AddSize 1]\<rparr>"
  from wf have p: "path b xs" and tl: "tail b = Some (last xs)"
    and nch: "\<not> ch (links b ! lnk b (last xs))"
    by (auto simp: wf_chain_def)
  have ne: "xs \<noteq> []" by (rule path_nonempty[OF p])
  have tv: "last xs < ?item" "l < ?nl"
    using wf_chain_valid[OF wf, of "last xs"] ne by (simp_all add: l_def)
  have app: "Append now idx evs b =
      bind_p (if maxSize b <s size_b b + 1 then advanceHead b3 else Inr b3) (close_ch l)"
    using tv tl
    by (simp add: Append_def newBufferItem_def appendItem_def Let_def bind_p_def Tail_def
        item_link_def item_at_def link_at_def store_next_def store_tail_def add_size_def
        b3_def b0_def l_def lnk_def nth_append)
  have wf3: "wf_chain b3 (xs @ [?item])"
  proof (rule wf_chain_linked[OF wf _ _ _ l_def])
    show "items b3 = items b @ [\<lparr>Events = evs, item_Index = idx, Err = None,
                 link = length (links b), createdAt = now\<rparr>]"
      by (simp add: b3_def b0_def)
    show "links b3 = (links b @ [\<lparr>next_item = None, ch = False, droppedCh = False\<rparr>])
                   [l := (links b ! l)\<lparr>next_item := Some (length (items b))\<rparr>]"
      using tv by (simp add: b3_def b0_def nth_append)
  qed (simp_all add: b3_def b0_def)
  have l3: "l < length (links b3)" and nch3: "\<not> ch (links b3 ! l)"
    using nch tv by (simp_all add: b3_def b0_def nth_append l_def)
  have "\<exists>b4. (if maxSize b <s size_b b + 1 then advanceHead b3 else Inr b3) = Inr b4 \<and>
          l < length (links b4) \<and> \<not> ch (links b4 ! l)"
  proof (cases "maxSize b <s size_b b + 1")
    case True
    have "2 \<le> length (xs @ [?item])" using ne by (cases xs) auto
    from wf_chain_advanceHead_total[OF wf3 this] obtain b4 where adv: "advanceHead b3 = Inr b4"
      by blast
    from advanceHead_Inr[OF adv] obtain a where
      links4: "links b4 = (links b3)[lnk b3 a := (links b3 ! lnk b3 a)\<lparr>droppedCh := True\<rparr>]"
      by auto
    have "ch (links b4 ! l) = ch (links b3 ! l)"
      using l3 by (cases "l = lnk b3 a") (simp_all add: links4)
    with True adv l3 nch3 show ?thesis by (simp add: links4)
  next
    case False
    with l3 nch3 show ?thesis by simp
  qed
  then obtain b4 where
    "(if maxSize b <s size_b b + 1 then advanceHead b3 else Inr b3) = Inr b4"
    "l < length (links b4)" "\<not> ch (links b4 ! l)"
    by blast
  then show ?thesis by (simp add: app bind_p_def close_ch_Inr)
qed

lemma wf_chain_prune_total:
  "wf_chain b xs \<Longrightarrow> \<exists>b'. prune clock k b = Inr b'"
proof (induction clock k b arbitrary: xs rule: prune.induct)
  case (1 clock k b)
  note wf = "1.prems"
  from wf have p: "path b xs" and hd: "head b = Some (hd xs)"
    and sz: "size_b b = of_nat (length xs) - 1"
    by (auto simp: wf_chain_def)
  have ne: "xs \<noteq> []" by (rule path_nonempty[OF p])
  then have hv: "hd xs < length (items b)" using wf_chain_valid(1)[OF wf, of "hd xs"] by simp
  have H: "Head b = Inr (hd xs)" by (simp add: Head_Inr hd)
  have I: "item_at b (hd xs) = Some (items b ! hd xs)" using hv by (simp add: item_at_def)
  show ?case
  proof (cases "Len b \<noteq> 0 \<and> maxItemTTL b <s time_Since (clock k) (createdAt (items b ! hd xs))")
    case False
    then have "prune clock k b = Inr b"
      by (subst prune.simps) (auto simp: H I)
    then show ?thesis by blast
  next
    case True
    then have "size_b b \<noteq> 0" by (auto simp: Len_def)
    with sz have "length xs \<noteq> 1" by auto
    moreover from ne have "length xs \<noteq> 0" by simp
    ultimately have len: "2 \<le> length xs" by linarith
    from wf_chain_advanceHead_total[OF wf len] obtain b1 where adv: "advanceHead b = Inr b1"
      by blast
    from wf_chain_advanceHead[OF wf adv] have wf1: "wf_chain b1 (tl xs)" by simp
    from True have c: "Len b \<noteq> 0"
      "maxItemTTL b <s time_Since (clock k) (createdAt (items b ! hd xs))" by simp_all
    from "1.IH"[OF H c(1) I c(2) adv wf1] obtain b' where "prune clock (Suc k) b1 = Inr b'"
      by blast
    with True have "prune clock k b = Inr b'"
      by (subst prune.simps) (simp add: H I adv)
    then show ?thesis by blast
  qed
qed

lemma reachable_no_panic:
  assumes "reachable b"
  shows "\<exists>b'. Append now idx evs b = Inr b'" and "\<exists>b'. prune clock k b = Inr b'"
proof -
  from reachable_wf_chain[OF assms] obtain xs where wf: "wf_chain b xs" by blast
  show "\<exists>b'. Append now idx evs b = Inr b'" by (rule wf_chain_Append_total[OF wf])
  show "\<exists>b'. prune clock k b = Inr b'" by (rule wf_chain_prune_total[OF wf])
qed

subsection \<open>prune and the time to live\<close>

lemma newEventBuffer_maxItemTTL: "maxItemTTL (newEventBuffer now sz ttl h) = 0"
  by (simp add: newEventBuffer_def newBufferItem_def)

lemma NewEventPublisher_maxItemTTL:
  "maxItemTTL (events_buf (NewEventPublisher now cfg h)) = 0"
  by (simp add: NewEventPublisher_def Let_def newEventBuffer_maxItemTTL)

lemma prune_buf_pruned: "prune clock_6ns (Suc 0) buf_pruned = Inr buf_pruned"
  by (subst prune.simps) (simp add: buf_pruned_def Head_def Len_def)

lemma advanceHead_buf_one: "advanceHead buf_one = Inr buf_pruned"
  by (simp add: buf_one_def buf_pruned_def buffer_defs)

text \<open>
  Claim C6 (prune evicts an item only when it is older than the TTL the buffer was
  constructed with). \<open>newEventBuffer\<close> does not store its TTL argument, so the field
  \<open>prune\<close> compares with is 0. The buffer below was constructed at instant 0 with a
  TTL of one hour (3600000000000 ns) and received one batch at instant 5; a \<open>prune\<close>
  at instant 6 finds the head 6 ns old, closes its \<open>droppedCh\<close>, advances the head and
  brings the size from 1 to 0.
\<close>

theorem prune_ignores_ttl:
  "buf_new = newEventBuffer 0 1 3600000000000 empty_heap
   \<and> maxItemTTL buf_new = 0
   \<and> Append 5 1 [ev_jobs_A] buf_new = Inr buf_one
   \<and> size_b buf_one = 1 \<and> head buf_one = Some 0
   \<and> prune clock_6ns 0 buf_one = Inr buf_pruned
   \<and> size_b buf_pruned = 0 \<and> head buf_pruned = Some 1
   \<and> droppedCh (links buf_pruned ! 0)"
proof -
  have H: "Head buf_one = Inr 0" and L: "Len buf_one \<noteq> 0"
    and I: "item_at buf_one 0 = Some (items buf_one ! 0)"
    and T: "maxItemTTL buf_one <s time_Since (clock_6ns 0) (createdAt (items buf_one ! 0))"
    by (simp_all add: buf_one_def Head_def Len_def item_at_def time_Since_def clock_6ns_def
        word_sless_alt)
  have P: "prune clock_6ns 0 buf_one = Inr buf_pruned"
    by (subst prune.simps) (simp add: H L I T advanceHead_buf_one prune_buf_pruned)
  have M: "maxItemTTL buf_new = 0" by (simp add: buf_new_def newEventBuffer_maxItemTTL)
  have F1: "size_b buf_one = 1" "head buf_one = Some 0" by (simp_all add: buf_one_def)
  have F2: "size_b buf_pruned = 0" "head buf_pruned = Some 1" "droppedCh (links buf_pruned ! 0)"
    by (simp_all add: buf_pruned_def)
  show ?thesis
    by (intro conjI buf_new_def M Append_buf_new F1 P F2)
qed

section \<open>Properties of the cursor, the publisher and subscriptions\<close>

subsection \<open>select\<close>

lemma select_go_mem: "select_go pick cs = Some c \<Longrightarrow> c \<in> set cs"
  by (auto simp: select_go_def split: if_splits)

lemma select_go_None: "(select_go pick (ready_cases ctx fc r) = None) = (ctx = None \<and> \<not> fc \<and> \<not> r)"
  by (cases ctx) (auto simp: select_go_def ready_cases_def)

lemma select_go_fired:
  "select_go pick (ready_cases ctx fc r) = Some (CtxDone e) \<Longrightarrow> ctx = Some e"
  "select_go pick (ready_cases ctx fc r) = Some ForceClosed \<Longrightarrow> fc"
  "select_go pick (ready_cases ctx fc r) = Some LinkReady \<Longrightarrow> r"
  by (auto dest!: select_go_mem simp: ready_cases_def split: option.splits if_splits)

lemma select_go_only:
  "select_go pick (ready_cases (Some e) False False) = Some (CtxDone e)"
  "select_go pick (ready_cases None True False) = Some ForceClosed"
  "select_go pick (ready_cases None False True) = Some LinkReady"
  by (simp_all add: select_go_def ready_cases_def)

subsection \<open>bufferItem.Next\<close>

lemmas next_defs =
  bufferItem_Next_def item_link_def item_at_def link_at_def select_go_def ready_cases_def

lemma bufferItem_Next_select:
  assumes "item_at h i = Some it" and "link_at h (link it) = Some lk"
  shows "bufferItem_Next h ctx fc pick i =
      (case select_go pick (ready_cases ctx fc (ch lk)) of
         None \<Rightarrow> Blocks
       | Some (CtxDone e) \<Rightarrow> Fails e
       | Some ForceClosed \<Rightarrow> Fails (ErrorString ''subscription closed'')
       | Some LinkReady \<Rightarrow>
           if droppedCh lk then Fails (ErrorString ''event dropped from buffer'')
           else (case next_item lk of
                   None \<Rightarrow> Fails (ErrorString ''invalid next item'')
                 | Some n \<Rightarrow>
                     (case item_at h n of None \<Rightarrow> Panics NilDereference
                      | Some nx \<Rightarrow> (case Err nx of Some e \<Rightarrow> Fails e | None \<Rightarrow> Returns n))))"
  using assms by (simp add: bufferItem_Next_def item_link_def)

text \<open>
  Claim C8 (the failures of the cursor step). For an item \<open>i\<close> with link \<open>lk\<close>: the step
  waits exactly when neither handle has fired and \<open>ch\<close> is open; when the \<open>select\<close>
  takes the cancellation case, which it can only do once the context is done and must
  do when nothing else is ready, the result is the context's error; when it takes the
  force-close case, likewise, the result is the error "subscription closed"; when it
  takes the ready case and \<open>droppedCh\<close> is closed, the result is the error "event
  dropped from buffer"; otherwise a successor carrying an error gives that error and a
  successor without one is returned. The three failures are different values. A nil
  \<open>next\<close> after the ready signal gives the error "invalid next item".
\<close>

theorem bufferItem_Next_failures:
  assumes "item_at h i = Some it" and "link_at h (link it) = Some lk"
  shows "(bufferItem_Next h ctx fc pick i = Blocks) = (ctx = None \<and> \<not> fc \<and> \<not> ch lk)
       \<and> (select_go pick (ready_cases ctx fc (ch lk)) = Some (CtxDone e) \<longrightarrow>
            ctx = Some e \<and> bufferItem_Next h ctx fc pick i = Fails e)
       \<and> (ctx = Some e \<and> \<not> fc \<and> \<not> ch lk \<longrightarrow> bufferItem_Next h ctx fc pick i = Fails e)
       \<and> (select_go pick (ready_cases ctx fc (ch lk)) = Some ForceClosed \<longrightarrow>
            fc \<and> bufferItem_Next h ctx fc pick i = Fails (ErrorString ''subscription closed''))
       \<and> (ctx = None \<and> fc \<and> \<not> ch lk \<longrightarrow>
            bufferItem_Next h ctx fc pick i = Fails (ErrorString ''subscription closed''))
       \<and> (select_go pick (ready_cases ctx fc (ch lk)) = Some LinkReady \<and> droppedCh lk \<longrightarrow>
            ch lk \<and>
            bufferItem_Next h ctx fc pick i = Fails (ErrorString ''event dropped from buffer''))
       \<and> (select_go pick (ready_cases ctx fc (ch lk)) = Some LinkReady \<and> \<not> droppedCh lk \<and>
            next_item lk = None \<longrightarrow>
            bufferItem_Next h ctx fc pick i = Fails (ErrorString ''invalid next item''))
       \<and> (select_go pick (ready_cases ctx fc (ch lk)) = Some LinkReady \<and> \<not> droppedCh lk \<and>
            next_item lk = Some n \<and> item_at h n = Some nx \<and> Err nx = Some e \<longrightarrow>
            bufferItem_Next h ctx fc pick i = Fails e)
       \<and> (select_go pick (ready_cases ctx fc (ch lk)) = Some LinkReady \<and> \<not> droppedCh lk \<and>
            next_item lk = Some n \<and> item_at h n = Some nx \<and> Err nx = None \<longrightarrow>
            bufferItem_Next h ctx fc pick i = Returns n)
       \<and> distinct [Canceled, DeadlineExceeded, ErrorString ''subscription closed'',
                    ErrorString ''event dropped from buffer'', ErrorString ''invalid next item'',
                    ErrSubscriptionClosed]"
proof -
  note N = bufferItem_Next_select[OF assms]
  have B: "(bufferItem_Next h ctx fc pick i = Blocks) = (ctx = None \<and> \<not> fc \<and> \<not> ch lk)"
  proof (cases "select_go pick (ready_cases ctx fc (ch lk))")
    case None
    then have "bufferItem_Next h ctx fc pick i = Blocks" by (simp add: N)
    moreover from None have "ctx = None \<and> \<not> fc \<and> \<not> ch lk"
      by (rule select_go_None[THEN iffD1])
    ultimately show ?thesis by blast
  next
    case (Some c)
    then have "bufferItem_Next h ctx fc pick i \<noteq> Blocks"
      by (cases c) (auto simp: N split: option.splits)
    moreover have "\<not> (ctx = None \<and> \<not> fc \<and> \<not> ch lk)"
    proof
      assume "ctx = None \<and> \<not> fc \<and> \<not> ch lk"
      then have "select_go pick (ready_cases ctx fc (ch lk)) = None"
        by (rule select_go_None[THEN iffD2])
      with Some show False by simp
    qed
    ultimately show ?thesis by blast
  qed
  have C: "select_go pick (ready_cases ctx fc (ch lk)) = Some (CtxDone e) \<longrightarrow>
            ctx = Some e \<and> bufferItem_Next h ctx fc pick i = Fails e"
    by (auto simp: N dest: select_go_fired)
  have C': "ctx = Some e \<and> \<not> fc \<and> \<not> ch lk \<longrightarrow> bufferItem_Next h ctx fc pick i = Fails e"
    by (auto simp: N select_go_only)
  have F: "select_go pick (ready_cases ctx fc (ch lk)) = Some ForceClosed \<longrightarrow>
            fc \<and> bufferItem_Next h ctx fc pick i = Fails (ErrorString ''subscription closed'')"
    by (auto simp: N dest: select_go_fired)
  have F': "ctx = None \<and> fc \<and> \<not> ch lk \<longrightarrow>
            bufferItem_Next h ctx fc pick i = Fails (ErrorString ''subscription closed'')"
    by (auto simp: N select_go_only)
  have D: "select_go pick (ready_cases ctx fc (ch lk)) = Some LinkReady \<and> droppedCh lk \<longrightarrow>
            ch lk \<and>
            bufferItem_Next h ctx fc pick i = Fails (ErrorString ''event dropped from buffer'')"
    by (auto simp: N dest: select_go_fired)
  have R: "select_go pick (ready_cases ctx fc (ch lk)) = Some LinkReady \<and> \<not> droppedCh lk \<and>
            next_item lk = None \<longrightarrow>
            bufferItem_Next h ctx fc pick i = Fails (ErrorString ''invalid next item'')"
    "select_go pick (ready_cases ctx fc (ch lk)) = Some LinkReady \<and> \<not> droppedCh lk \<and>
            next_item lk = Some n \<and> item_at h n = Some nx \<and> Err nx = Some e \<longrightarrow>
            bufferItem_Next h ctx fc pick i = Fails e"
    "select_go pick (ready_cases ctx fc (ch lk)) = Some LinkReady \<and> \<not> droppedCh lk \<and>
            next_item lk = Some n \<and> item_at h n = Some nx \<and> Err nx = None \<longrightarrow>
            bufferItem_Next h ctx fc pick i = Returns n"
    by (simp_all add: N)
  have E: "distinct [Canceled, DeadlineExceeded, ErrorString ''subscription closed'',
                    ErrorString ''event dropped from buffer'', ErrorString ''invalid next item'',
                    ErrSubscriptionClosed]"
    by simp
  show ?thesis
    by (intro conjI B C C' F F' D R E)
qed

theorem bufferItem_Next_failures_witness:
  "bufferItem_Next buf_two None False 0 2 = Blocks
   \<and> bufferItem_Next buf_two (Some Canceled) False 0 2 = Fails Canceled
   \<and> bufferItem_Next buf_two None True 0 2 = Fails (ErrorString ''subscription closed'')
   \<and> bufferItem_Next buf_two None False 0 0 = Fails (ErrorString ''event dropped from buffer'')
   \<and> bufferItem_Next heap_err None False 0 0 = Fails (ErrorString ''producer failed'')
   \<and> bufferItem_Next buf_two None False 0 1 = Returns 2"
  using
    bufferItem_Next_failures [of buf_two 2 "items buf_two ! 2" "links buf_two ! 2" None False 0]
    bufferItem_Next_failures [of buf_two 2 "items buf_two ! 2" "links buf_two ! 2"
      "Some Canceled" False 0 Canceled]
    bufferItem_Next_failures [of buf_two 2 "items buf_two ! 2" "links buf_two ! 2" None True 0]
    bufferItem_Next_failures [of buf_two 0 "items buf_two ! 0" "links buf_two ! 0" None False 0]
    bufferItem_Next_failures [of heap_err 0 "items heap_err ! 0" "links heap_err ! 0" None False 0
      "ErrorString ''producer failed''" 1 "items heap_err ! 1"]
    bufferItem_Next_failures [of buf_two 1 "items buf_two ! 1" "links buf_two ! 1" None False 0
      _ 2 "items buf_two ! 2"]
  by (simp add: buf_two_def heap_err_def item_at_def link_at_def select_go_def ready_cases_def)

subsection \<open>Publish\<close>

text \<open>
  Claim C9 (publishing no events is a no-op). \<open>Publish\<close> with an empty slice offers
  nothing on \<open>publishCh\<close>: the publisher is unchanged, so the next turn of the writer
  does what it would have done anyway, and the size and the tail of the buffer are
  what they were.
\<close>

theorem Publish_empty_noop:
  "Publish i [] e = e
   \<and> publishCh (Publish i [] e) = publishCh e
   \<and> handleUpdates_turn now (Publish i [] e) = handleUpdates_turn now e
   \<and> size_b (events_buf (Publish i [] e)) = size_b (events_buf e)
   \<and> tail (events_buf (Publish i [] e)) = tail (events_buf e)"
  by (simp add: Publish_def)

lemma Publish_nonempty:
  "evs \<noteq> [] \<Longrightarrow> publishCh (Publish i evs e) = publishCh e @ [\<lparr>index = i, events = evs\<rparr>]"
  by (simp add: Publish_def)

subsection \<open>Subscription.Next\<close>

lemma bufferItem_Next_Returns:
  "bufferItem_Next h ctx fc pick i = Returns n \<Longrightarrow>
     NextNoBlock h i = Inr (Some n) \<and> (\<exists>nx. item_at h n = Some nx \<and> Err nx = None)"
  by (auto simp: bufferItem_Next_def NextNoBlock_def
      split: sum.splits option.splits select_case.splits if_splits)

text \<open>
  Whatever the loop returns, the subscription it leaves differs from the one it started
  with in the cursor only; and unless it returns events, the cursor has moved only over
  items that gave this subscription nothing.
\<close>

lemma Subscription_loop_cursor:
  "Subscription_loop h ctx picks s = Some res \<Longrightarrow>
     ((\<exists>evs. fst res = Returns evs) \<or>
      skipped h (req s) (currentItem s) (currentItem (snd res))) \<and>
     snd res = s\<lparr>currentItem := currentItem (snd res)\<rparr>"
proof (induction rule: Subscription_loop.raw_induct[rotated 1, consumes 1])
  case (1 loop h ctx picks s res)
  show ?case
  proof (cases "bufferItem_Next h ctx (forceClosed s) (draw picks) (currentItem s)")
    case Blocks
    with 1(2) show ?thesis by (auto intro: skipped_refl)
  next
    case (Panics p)
    with 1(2) show ?thesis by (auto intro: skipped_refl)
  next
    case (Fails e)
    with 1(2) show ?thesis by (auto intro: skipped_refl split: if_splits)
  next
    case (Returns n)
    from bufferItem_Next_Returns[OF Returns] obtain it where
      nb: "NextNoBlock h (currentItem s) = Inr (Some n)" and Some: "item_at h n = Some it"
      by blast
    show ?thesis
    proof (cases "filter_events (req s) (Events it) = []")
      case True
      with Returns Some 1(2) have "loop h ctx (tl picks) (s\<lparr>currentItem := n\<rparr>) = Some res"
        by simp
      from 1(1)[OF this]
      have sk: "(\<exists>evs. fst res = Returns evs) \<or> skipped h (req s) n (currentItem (snd res))"
        and eq: "snd res = s\<lparr>currentItem := currentItem (snd res)\<rparr>"
        by simp_all
      from sk skipped_step[OF nb Some True] eq show ?thesis by auto
    next
      case False
      with Returns Some 1(2) show ?thesis by auto
    qed
  qed
qed

lemma sub_nodes_fields:
  "state sub_nodes \<noteq> subscriptionStateClosed" "req sub_nodes = req_nodes"
  "currentItem sub_nodes = 0" "forceClosed sub_nodes = False"
  by (simp_all add: sub_nodes_def subscriptionStateOpen_def subscriptionStateClosed_def)

lemma heap_one_step_sentinel:
  "bufferItem_Next heap_one (Some Canceled) False (Suc 0) 0 = Returns (Suc 0)"
  by (simp add: next_defs heap_one_def buf_one_def)

lemma heap_one_step_tail:
  "bufferItem_Next heap_one (Some Canceled) False 0 (Suc 0) = Fails Canceled"
  by (simp add: next_defs heap_one_def buf_one_def)

lemma heap_one_item:
  "item_at heap_one (Suc 0) =
     Some \<lparr>Events = [ev_jobs_A], item_Index = 1, Err = None, link = 1, createdAt = 5\<rparr>"
  by (simp add: item_at_def heap_one_def buf_one_def)

lemma filter_nodes_jobs: "filter_events req_nodes [ev_jobs_A] = []"
  by (simp add: filter_example_defs)

lemma Subscription_Next_sub_nodes:
  "Subscription_Next heap_one (Some Canceled) [1] sub_nodes =
     Some (Fails Canceled, sub_nodes\<lparr>currentItem := 1\<rparr>)"
proof -
  have a: "Subscription_loop heap_one (Some Canceled) [] (sub_nodes\<lparr>currentItem := Suc 0\<rparr>) =
     Some (Fails Canceled, sub_nodes\<lparr>currentItem := Suc 0\<rparr>)"
    by (subst Subscription_loop.simps) (simp add: heap_one_step_tail draw_def sub_nodes_fields)
  have b: "Subscription_loop heap_one (Some Canceled) [Suc 0] sub_nodes =
     Some (Fails Canceled, sub_nodes\<lparr>currentItem := Suc 0\<rparr>)"
    by (subst Subscription_loop.simps)
      (simp add: heap_one_step_sentinel draw_def a filter_nodes_jobs heap_one_item
        sub_nodes_fields)
  show ?thesis
    by (simp add: Subscription_Next_def b sub_nodes_fields)
qed

text \<open>
  Claim C10 (when \<open>Subscription.Next\<close> returns an error the cursor is where it was at
  the start of the call). As stated it fails: a subscription to the nodes topic stands
  on the sentinel of a buffer holding one batch of the jobs topic, and the context is
  already cancelled. The first \<open>select\<close> finds both the ready signal and the
  cancellation and takes the ready signal; the batch has nothing for the subscription,
  so the loop goes round with the cursor on the batch; there only the cancellation is
  ready. The call returns the context's error with the cursor moved from item 0 to
  item 1.
\<close>

theorem Subscription_Next_error_moves_cursor:
  "Subscription_Next heap_one (Some Canceled) [1] sub_nodes =
     Some (Fails Canceled, sub_nodes\<lparr>currentItem := 1\<rparr>)
   \<and> currentItem (sub_nodes\<lparr>currentItem := 1\<rparr>) \<noteq> currentItem sub_nodes"
  using Subscription_Next_sub_nodes by (simp add: sub_nodes_fields)

text \<open>
  Claim C10, amended: when \<open>Subscription.Next\<close> returns an error, the subscription is
  unchanged except for its cursor, and the cursor has moved only by successful cursor
  steps, each onto an item none of whose events passes the subscription's filter; the
  failing step itself does not move it. In particular, when the subscription is closed
  on entry or the first cursor step of the call fails, the cursor is where it was at
  the start of the call.
\<close>

theorem Subscription_Next_error_cursor:
  assumes "Subscription_Next h ctx picks s = Some (Fails err, s')"
  shows "skipped h (req s) (currentItem s) (currentItem s')
       \<and> s' = s\<lparr>currentItem := currentItem s'\<rparr>
       \<and> (state s = subscriptionStateClosed \<or>
            (\<exists>e. bufferItem_Next h ctx (forceClosed s) (draw picks) (currentItem s) = Fails e)
          \<longrightarrow> s' = s)"
proof (cases "state s = subscriptionStateClosed")
  case True
  with assms have "s' = s" by (simp add: Subscription_Next_def)
  then show ?thesis by (simp add: skipped_refl)
next
  case False
  with assms have loop: "Subscription_loop h ctx picks s = Some (Fails err, s')"
    by (simp add: Subscription_Next_def)
  from Subscription_loop_cursor[OF loop]
  have 1: "skipped h (req s) (currentItem s) (currentItem s')"
    and 2: "s' = s\<lparr>currentItem := currentItem s'\<rparr>"
    by simp_all
  have 3: "s' = s"
    if "\<exists>e. bufferItem_Next h ctx (forceClosed s) (draw picks) (currentItem s) = Fails e"
  proof -
    from that obtain e where
      "bufferItem_Next h ctx (forceClosed s) (draw picks) (currentItem s) = Fails e" by blast
    with loop show ?thesis
      by (subst (asm) Subscription_loop.simps) (simp split: if_splits)
  qed
  from 1 2 3 False show ?thesis by blast
qed

theorem Subscription_Next_error_cursor_witness:
  "Subscription_Next heap_one (Some Canceled) [1] sub_nodes =
     Some (Fails Canceled, sub_nodes\<lparr>currentItem := 1\<rparr>)
   \<and> skipped heap_one req_nodes 0 1
   \<and> sub_nodes\<lparr>currentItem := 1\<rparr> = sub_nodes\<lparr>currentItem := 1\<rparr>"
  using Subscription_Next_sub_nodes
    Subscription_Next_error_cursor [OF Subscription_Next_sub_nodes]
  by (simp add: sub_nodes_fields)

end
